theory Spec2Isabelle
  imports Main "HOL-Library.List_Lexorder" "HOL-Library.Char_ord"
begin

section \<open>Dates and times as the code uses them\<close>

text \<open>
  The program keeps every instant as a Python \<^verbatim>\<open>datetime\<close> and stores it as the text
  that \<^verbatim>\<open>isoformat()\<close> renders. The part of the \<^verbatim>\<open>datetime\<close> module that the
  program calls is written out here after CPython's implementation: the proleptic
  Gregorian calendar tables, the ordinal conversions, the normalisation that follows an
  addition, and the ISO rendering and parsing.

  A datetime is its civil fields together with the UTC offset of its \<^verbatim>\<open>tzinfo\<close>
  (\<open>None\<close> for a naive datetime). Offsets are whole minutes, as every offset the
  program meets is (UTC, and the +05:30 of Indian Standard Time).
\<close>

record datetime =
  year :: int
  month :: int
  day :: int
  hour :: int
  minute :: int
  second :: int
  microsecond :: int
  tzoffset :: "int option"

record timedelta =
  td_days :: int
  td_seconds :: int
  td_microseconds :: int

datatype py_error =
  ValueError | OverflowError | KeyError | Exception string

definition MINYEAR :: int where "MINYEAR = 1"
definition MAXYEAR :: int where "MAXYEAR = 9999"
definition MAXORDINAL :: int where "MAXORDINAL = 3652059"

definition is_leap :: "int \<Rightarrow> bool" where
  "is_leap y \<longleftrightarrow> y mod 4 = 0 \<and> (y mod 100 \<noteq> 0 \<or> y mod 400 = 0)"

definition days_in_month_tbl :: "int list" where
  "days_in_month_tbl = [0, 31, 28, 31, 30, 31, 30, 31, 31, 30, 31, 30, 31]"

definition days_before_month_tbl :: "int list" where
  "days_before_month_tbl = [0, 0, 31, 59, 90, 120, 151, 181, 212, 243, 273, 304, 334]"

text \<open>Both tables are only ever read at a month between 1 and 12.\<close>

definition days_in_month :: "int \<Rightarrow> int \<Rightarrow> int" where
  "days_in_month y m = (if m = 2 \<and> is_leap y then 29 else days_in_month_tbl ! nat m)"

definition days_before_month :: "int \<Rightarrow> int \<Rightarrow> int" where
  "days_before_month y m =
     days_before_month_tbl ! nat m + (if m > 2 \<and> is_leap y then 1 else 0)"

definition days_before_year :: "int \<Rightarrow> int" where
  "days_before_year y =
     (let p = y - 1 in p * 365 + p div 4 - p div 100 + p div 400)"

definition ymd_to_ord :: "int \<Rightarrow> int \<Rightarrow> int \<Rightarrow> int" where
  "ymd_to_ord y m d = days_before_year y + days_before_month y m + d"

definition ord_to_ymd :: "int \<Rightarrow> int \<times> int \<times> int" where
  "ord_to_ymd ordinal =
     (let o1 = ordinal - 1;
          n400 = o1 div 146097; r400 = o1 mod 146097;
          n100 = r400 div 36524; r100 = r400 mod 36524;
          n4 = r100 div 1461; r4 = r100 mod 1461;
          n1 = r4 div 365; n = r4 mod 365;
          y = n400 * 400 + 1 + n100 * 100 + n4 * 4 + n1
      in if n1 = 4 \<or> n100 = 4 then (y - 1, 12, 31)
         else
           let leapyear = (n1 = 3 \<and> (n4 \<noteq> 24 \<or> n100 = 3));
               m = (n + 50) div 32;
               preceding = days_before_month_tbl ! nat m
                             + (if m > 2 \<and> leapyear then 1 else 0)
           in if preceding > n
              then (y, m - 1, n - (preceding - days_in_month y (m - 1)) + 1)
              else (y, m, n - preceding + 1))"

text \<open>
  \<^verbatim>\<open>normalize_y_m_d\<close>: the month is in range and only the day may be out of it. One
  day below or above the month is handled without ordinals; anything further goes through
  the ordinal, which must stay between 1 and \<open>MAXORDINAL\<close>. \<^verbatim>\<open>normalize_date\<close> then
  checks the year.
\<close>

definition normalize_y_m_d :: "int \<Rightarrow> int \<Rightarrow> int \<Rightarrow> py_error + (int \<times> int \<times> int)" where
  "normalize_y_m_d y m d =
     (let dim = days_in_month y m in
      if d < 1 \<or> d > dim then
        if d = 0 then
          (if m - 1 > 0 then Inr (y, m - 1, days_in_month y (m - 1))
           else Inr (y - 1, 12, 31))
        else if d = dim + 1 then
          (if m + 1 > 12 then Inr (y + 1, 1, 1) else Inr (y, m + 1, 1))
        else
          let ordinal = ymd_to_ord y m 1 + d - 1 in
          if ordinal < 1 \<or> ordinal > MAXORDINAL then Inl OverflowError
          else Inr (ord_to_ymd ordinal)
      else Inr (y, m, d))"

definition normalize_date :: "int \<Rightarrow> int \<Rightarrow> int \<Rightarrow> py_error + (int \<times> int \<times> int)" where
  "normalize_date y m d =
     (case normalize_y_m_d y m d of
        Inl e \<Rightarrow> Inl e
      | Inr (y', m', d') \<Rightarrow>
          if MINYEAR \<le> y' \<and> y' \<le> MAXYEAR then Inr (y', m', d') else Inl OverflowError)"

text \<open>
  \<^verbatim>\<open>add_datetime_timedelta(date, delta, factor)\<close>: the delta's fields are added to the
  day, the second and the microsecond, and \<^verbatim>\<open>normalize_datetime\<close> carries upwards with
  floor division (\<^verbatim>\<open>normalize_pair\<close>) before the date is normalised. The result keeps the
  \<^verbatim>\<open>tzinfo\<close> of its argument.
\<close>

definition add_datetime_timedelta :: "datetime \<Rightarrow> timedelta \<Rightarrow> int \<Rightarrow> py_error + datetime" where
  "add_datetime_timedelta dt delta factor =
     (let d0 = day dt + td_days delta * factor;
          s0 = second dt + td_seconds delta * factor;
          u0 = microsecond dt + td_microseconds delta * factor;
          s1 = s0 + u0 div 1000000; u1 = u0 mod 1000000;
          mi1 = minute dt + s1 div 60; s2 = s1 mod 60;
          h1 = hour dt + mi1 div 60; mi2 = mi1 mod 60;
          d1 = d0 + h1 div 24; h2 = h1 mod 24
      in case normalize_date (year dt) (month dt) d1 of
           Inl e \<Rightarrow> Inl e
         | Inr (y', m', d') \<Rightarrow>
             Inr (dt\<lparr>year := y', month := m', day := d', hour := h2, minute := mi2,
                      second := s2, microsecond := u1\<rparr>))"

text \<open>
  \<^verbatim>\<open>timedelta(days=..., seconds=...)\<close> with integer arguments: the seconds are carried
  into days, and more than 999999999 days either way is an \<^verbatim>\<open>OverflowError\<close>.
\<close>

definition mk_timedelta :: "int \<Rightarrow> int \<Rightarrow> py_error + timedelta" where
  "mk_timedelta days seconds =
     (let d = days + seconds div 86400; s = seconds mod 86400 in
      if \<bar>d\<bar> > 999999999 then Inl OverflowError
      else Inr \<lparr>td_days = d, td_seconds = s, td_microseconds = 0\<rparr>)"

text \<open>\<^verbatim>\<open>dt + timedelta(days=..., seconds=...)\<close>, with both ways to raise.\<close>

definition dt_plus :: "datetime \<Rightarrow> int \<Rightarrow> int \<Rightarrow> py_error + datetime" where
  "dt_plus dt days seconds =
     (case mk_timedelta days seconds of
        Inl e \<Rightarrow> Inl e
      | Inr delta \<Rightarrow> add_datetime_timedelta dt delta 1)"

text \<open>
  \<^verbatim>\<open>datetime.fromtimestamp(ts, tz=timezone.utc)\<close> for an integer number of seconds: the
  UTC civil time that many seconds after the epoch, or an error when it is outside the
  years 1 to 9999.
\<close>

definition epoch :: datetime where
  "epoch = \<lparr>year = 1970, month = 1, day = 1, hour = 0, minute = 0, second = 0,
            microsecond = 0, tzoffset = Some 0\<rparr>"

definition fromtimestamp_utc :: "int \<Rightarrow> py_error + datetime" where
  "fromtimestamp_utc ts = dt_plus epoch 0 ts"

text \<open>
  \<^verbatim>\<open>dt.astimezone(timezone.utc)\<close>: the offset is subtracted and the result is labelled
  UTC. A naive datetime is taken to be in the system's local zone, whose offset at that
  time is a parameter of the model.
\<close>

definition astimezone_utc :: "int \<Rightarrow> datetime \<Rightarrow> py_error + datetime" where
  "astimezone_utc local_offset dt =
     (let off = (case tzoffset dt of None \<Rightarrow> local_offset | Some k \<Rightarrow> k) in
      case add_datetime_timedelta dt
             \<lparr>td_days = (off * 60) div 86400, td_seconds = (off * 60) mod 86400,
              td_microseconds = 0\<rparr> (- 1) of
        Inl e \<Rightarrow> Inl e
      | Inr u \<Rightarrow> Inr (u\<lparr>tzoffset := Some 0\<rparr>))"

subsection \<open>Rendering: \<^verbatim>\<open>isoformat()\<close>\<close>

definition digit_char :: "int \<Rightarrow> char" where
  "digit_char k = char_of (48 + k)"

definition pad2 :: "int \<Rightarrow> string" where
  "pad2 n = [digit_char (n div 10), digit_char (n mod 10)]"

definition pad4 :: "int \<Rightarrow> string" where
  "pad4 n = pad2 (n div 100) @ pad2 (n mod 100)"

definition pad6 :: "int \<Rightarrow> string" where
  "pad6 n = pad2 (n div 10000) @ pad4 (n mod 10000)"

definition format_offset :: "int option \<Rightarrow> string" where
  "format_offset off =
     (case off of
        None \<Rightarrow> []
      | Some k \<Rightarrow>
          (if k < 0 then ''-'' else ''+'') @ pad2 (\<bar>k\<bar> div 60) @ '':'' @ pad2 (\<bar>k\<bar> mod 60))"

text \<open>
  \<^verbatim>\<open>"%04d-%02d-%02dT%02d:%02d:%02d"\<close>, then \<^verbatim>\<open>".%06d"\<close> only when the microsecond is
  not zero, then the offset as \<^verbatim>\<open>+HH:MM\<close> when the datetime is aware.
\<close>

definition isoformat :: "datetime \<Rightarrow> string" where
  "isoformat dt =
     pad4 (year dt) @ ''-'' @ pad2 (month dt) @ ''-'' @ pad2 (day dt) @ ''T'' @
     pad2 (hour dt) @ '':'' @ pad2 (minute dt) @ '':'' @ pad2 (second dt) @
     (if microsecond dt = 0 then [] else ''.'' @ pad6 (microsecond dt)) @
     format_offset (tzoffset dt)"

subsection \<open>Parsing: \<^verbatim>\<open>datetime.fromisoformat\<close>\<close>

text \<open>
  The parser reads the extended format that \<open>isoformat\<close> writes:
  \<^verbatim>\<open>YYYY-MM-DDTHH:MM:SS\<close>, an optional \<^verbatim>\<open>.ffffff\<close>, and an optional \<^verbatim>\<open>Z\<close> or
  \<^verbatim>\<open>+HH:MM\<close> / \<^verbatim>\<open>-HH:MM\<close>. The fields are range-checked as the constructor does. Every
  other text is a \<^verbatim>\<open>ValueError\<close> in this model (CPython 3.11 also reads some further
  ISO 8601 variants, which none of the sources sends and the store never holds).
\<close>

definition digit_val :: "char \<Rightarrow> int option" where
  "digit_val c =
     (let k = (of_char c :: int) in if 48 \<le> k \<and> k \<le> 57 then Some (k - 48) else None)"

fun parse_digits_acc :: "int \<Rightarrow> string \<Rightarrow> int option" where
  "parse_digits_acc acc [] = Some acc"
| "parse_digits_acc acc (c # cs) =
     (case digit_val c of
        None \<Rightarrow> None
      | Some k \<Rightarrow> parse_digits_acc (acc * 10 + k) cs)"

definition parse_digits :: "string \<Rightarrow> int option" where
  "parse_digits s = (if s = [] then None else parse_digits_acc 0 s)"

definition parse_offset :: "string \<Rightarrow> int option option" where
  "parse_offset s =
     (if s = [] then Some None
      else if s = ''Z'' then Some (Some 0)
      else if length s = 6 \<and> (s ! 0 = CHR ''+'' \<or> s ! 0 = CHR ''-'') \<and> s ! 3 = CHR '':'' then
        (case (parse_digits (take 2 (drop 1 s)), parse_digits (drop 4 s)) of
           (Some h, Some m) \<Rightarrow>
             if h < 24 \<and> m < 60
             then Some (Some ((if s ! 0 = CHR ''-'' then - 1 else 1) * (h * 60 + m)))
             else None
         | _ \<Rightarrow> None)
      else None)"

definition parse_fraction :: "string \<Rightarrow> (int \<times> string) option" where
  "parse_fraction s =
     (case s of
        [] \<Rightarrow> Some (0, [])
      | c # cs \<Rightarrow>
          if c = CHR ''.'' then
            (if length cs < 6 then None
             else case parse_digits (take 6 cs) of
                    None \<Rightarrow> None
                  | Some u \<Rightarrow> Some (u, drop 6 cs))
          else Some (0, s))"

definition fromisoformat :: "string \<Rightarrow> py_error + datetime" where
  "fromisoformat s =
     (if length s < 19 \<or> s ! 4 \<noteq> CHR ''-'' \<or> s ! 7 \<noteq> CHR ''-'' \<or> s ! 10 \<noteq> CHR ''T''
         \<or> s ! 13 \<noteq> CHR '':'' \<or> s ! 16 \<noteq> CHR '':'' then Inl ValueError
      else
        case (parse_digits (take 4 s), parse_digits (take 2 (drop 5 s)),
              parse_digits (take 2 (drop 8 s)), parse_digits (take 2 (drop 11 s)),
              parse_digits (take 2 (drop 14 s)), parse_digits (take 2 (drop 17 s)),
              parse_fraction (drop 19 s)) of
          (Some y, Some mo, Some d, Some h, Some mi, Some sec, Some (u, rest)) \<Rightarrow>
            (case parse_offset rest of
               None \<Rightarrow> Inl ValueError
             | Some off \<Rightarrow>
                 if MINYEAR \<le> y \<and> 1 \<le> mo \<and> mo \<le> 12 \<and> 1 \<le> d \<and> d \<le> days_in_month y mo
                    \<and> h < 24 \<and> mi < 60 \<and> sec < 60
                 then Inr \<lparr>year = y, month = mo, day = d, hour = h, minute = mi,
                           second = sec, microsecond = u, tzoffset = off\<rparr>
                 else Inl ValueError)
        | _ \<Rightarrow> Inl ValueError)"


text \<open>
  Two aware datetimes with the same \<^verbatim>\<open>tzinfo\<close> compare by their civil fields, most
  significant first.
\<close>

definition dt_fields :: "datetime \<Rightarrow> int list" where
  "dt_fields dt =
     [year dt, month dt, day dt, hour dt, minute dt, second dt, microsecond dt]"

definition dt_less :: "datetime \<Rightarrow> datetime \<Rightarrow> bool" where
  "dt_less a b \<longleftrightarrow> dt_fields a < dt_fields b"

text \<open>
  The fields of a datetime that the constructor accepts, and the instant of an aware
  datetime: the microseconds from 0001-01-01T00:00:00 UTC to it.
\<close>

definition valid_datetime :: "datetime \<Rightarrow> bool" where
  "valid_datetime dt \<longleftrightarrow>
     MINYEAR \<le> year dt \<and> year dt \<le> MAXYEAR \<and> 1 \<le> month dt \<and> month dt \<le> 12 \<and>
     1 \<le> day dt \<and> day dt \<le> days_in_month (year dt) (month dt) \<and>
     0 \<le> hour dt \<and> hour dt < 24 \<and> 0 \<le> minute dt \<and> minute dt < 60 \<and>
     0 \<le> second dt \<and> second dt < 60 \<and> 0 \<le> microsecond dt \<and> microsecond dt < 1000000"

definition instant :: "datetime \<Rightarrow> int" where
  "instant dt =
     ((((ymd_to_ord (year dt) (month dt) (day dt) - 1) * 24 + hour dt) * 60 + minute dt
        - (case tzoffset dt of None \<Rightarrow> 0 | Some k \<Rightarrow> k)) * 60 + second dt) * 1000000
     + microsecond dt"

text \<open>
  A text \<open>s\<close> is the UTC rendering of \<open>d\<close> when \<open>d\<close> is a valid datetime with
  offset +00:00 and \<open>s\<close> is what \<^verbatim>\<open>isoformat()\<close> gives for it.
\<close>

definition utc_rendering :: "string \<Rightarrow> datetime \<Rightarrow> bool" where
  "utc_rendering s d \<longleftrightarrow> s = isoformat d \<and> valid_datetime d \<and> tzoffset d = Some 0"

section \<open>The contest store (\<^verbatim>\<open>database.py\<close>)\<close>

text \<open>
  A contest as the adapters build it is a dictionary with the keys \<^verbatim>\<open>id\<close>,
  \<^verbatim>\<open>platform\<close>, \<^verbatim>\<open>title\<close>, \<^verbatim>\<open>start_time\<close>, \<^verbatim>\<open>duration_seconds\<close> and
  \<^verbatim>\<open>url\<close>; \<^verbatim>\<open>save_contests\<close> reads \<^verbatim>\<open>url\<close> with a default, so that key may be
  missing. A stored row has the same columns and \<^verbatim>\<open>fetched_at\<close>.

  Each SQLite table is the list of its rows in insertion order. \<^verbatim>\<open>INSERT OR REPLACE\<close>
  deletes the row with the same primary key and appends the new one;
  \<^verbatim>\<open>fetchone()\<close> gives the first matching row. The storage engine itself is taken to
  be available: no call to it raises.
\<close>

record contest =
  cid :: string
  platform :: string
  title :: string
  start_time :: string
  duration_seconds :: int
  url :: "string option"

record contest_row = contest +
  fetched_at :: string

record calendar_event =
  event_id :: string
  contest_id :: string
  created_at :: string

text \<open>
  The only preference the program writes is a list of minute offsets; the table keeps its
  JSON text, which \<^verbatim>\<open>json.loads\<close> turns back into the list.
\<close>

record database =
  contests :: "contest_row list"
  calendar_events :: "calendar_event list"
  preferences :: "(string \<times> int list) list"

definition contest_to_row :: "contest \<Rightarrow> string \<Rightarrow> contest_row" where
  "contest_to_row c stamp =
     \<lparr>cid = cid c, platform = platform c, title = title c, start_time = start_time c,
      duration_seconds = duration_seconds c,
      url = Some (case url c of None \<Rightarrow> [] | Some u \<Rightarrow> u),
      fetched_at = stamp\<rparr>"

definition insert_or_replace_contest :: "contest_row \<Rightarrow> contest_row list \<Rightarrow> contest_row list" where
  "insert_or_replace_contest row rows = filter (\<lambda>r. cid r \<noteq> cid row) rows @ [row]"

text \<open>
  \<^verbatim>\<open>save_contests\<close> reads the clock once for every contest of the list; \<open>clock i\<close> is
  the reading of the \<open>i\<close>-th call of \<^verbatim>\<open>datetime.now(timezone.utc)\<close>.
\<close>

fun save_contests :: "(nat \<Rightarrow> datetime) \<Rightarrow> contest list \<Rightarrow> database \<Rightarrow> database" where
  "save_contests clock [] db = db"
| "save_contests clock (c # cs) db =
     save_contests (\<lambda>i. clock (Suc i)) cs
       (db\<lparr>contests :=
             insert_or_replace_contest (contest_to_row c (isoformat (clock 0))) (contests db)\<rparr>)"


definition get_contest_by_id :: "database \<Rightarrow> string \<Rightarrow> contest_row option" where
  "get_contest_by_id db c = find (\<lambda>r. cid r = c) (contests db)"

definition save_calendar_event :: "datetime \<Rightarrow> database \<Rightarrow> string \<Rightarrow> string \<Rightarrow> database" where
  "save_calendar_event now db e c =
     db\<lparr>calendar_events :=
          filter (\<lambda>r. event_id r \<noteq> e) (calendar_events db)
            @ [\<lparr>event_id = e, contest_id = c, created_at = isoformat now\<rparr>]\<rparr>"

definition is_contest_in_calendar :: "database \<Rightarrow> string \<Rightarrow> bool \<times> string option" where
  "is_contest_in_calendar db c =
     (case find (\<lambda>r. contest_id r = c) (calendar_events db) of
        Some r \<Rightarrow> (True, Some (event_id r))
      | None \<Rightarrow> (False, None))"

definition get_preference :: "database \<Rightarrow> string \<Rightarrow> int list option \<Rightarrow> int list option" where
  "get_preference db k dflt =
     (case find (\<lambda>kv. fst kv = k) (preferences db) of
        Some kv \<Rightarrow> Some (snd kv)
      | None \<Rightarrow> dflt)"

definition set_preference :: "database \<Rightarrow> string \<Rightarrow> int list \<Rightarrow> database" where
  "set_preference db k v =
     db\<lparr>preferences := filter (\<lambda>kv. fst kv \<noteq> k) (preferences db) @ [(k, v)]\<rparr>"


section \<open>The source adapters and the aggregator (\<^verbatim>\<open>fetchers.py\<close>)\<close>

text \<open>
  The HTTP exchange is outside the program: an adapter is a function of what the exchange
  gave, either an exception (\<open>Inl\<close>) or the decoded JSON payload (\<open>Inr\<close>). The payload
  is typed by the keys the adapter reads; a key that the adapter reads with
  \<^verbatim>\<open>contest[...]\<close> and that a source may leave out is an \<open>option\<close>, and reading it
  when absent is the \<^verbatim>\<open>KeyError\<close>.
\<close>

fun str_of_nat :: "nat \<Rightarrow> string" where
  "str_of_nat n =
     (if n < 10 then [digit_char (int n)]
      else str_of_nat (n div 10) @ [digit_char (int (n mod 10))])"

definition str_of_int :: "int \<Rightarrow> string" where
  "str_of_int k = (if k < 0 then ''-'' @ str_of_nat (nat (- k)) else str_of_nat (nat k))"

record codeforces_entry =
  cf_id :: int
  cf_name :: string
  cf_phase :: string
  cf_startTimeSeconds :: "int option"
  cf_durationSeconds :: int

record codeforces_data =
  cf_status :: string
  cf_result :: "codeforces_entry list"

text \<open>
  The loop of \<^verbatim>\<open>fetch_codeforces\<close>. Nothing inside it is caught, so an entry that
  raises ends the whole adapter in its outer handler.
\<close>

fun codeforces_loop :: "codeforces_entry list \<Rightarrow> py_error + contest list" where
  "codeforces_loop [] = Inr []"
| "codeforces_loop (e # es) =
     (if cf_phase e = ''BEFORE'' then
        (case cf_startTimeSeconds e of
           None \<Rightarrow> Inl KeyError
         | Some ts \<Rightarrow>
             (case fromtimestamp_utc ts of
                Inl err \<Rightarrow> Inl err
              | Inr st \<Rightarrow>
                  (case codeforces_loop es of
                     Inl err \<Rightarrow> Inl err
                   | Inr cs \<Rightarrow>
                       Inr (\<lparr>cid = ''codeforces_'' @ str_of_int (cf_id e),
                             platform = ''Codeforces'',
                             title = cf_name e,
                             start_time = isoformat st,
                             duration_seconds = cf_durationSeconds e,
                             url = Some (''https://codeforces.com/contest/''
                                           @ str_of_int (cf_id e))\<rparr> # cs))))
      else codeforces_loop es)"

definition fetch_codeforces :: "py_error + codeforces_data \<Rightarrow> contest list" where
  "fetch_codeforces response =
     (case response of
        Inl e \<Rightarrow> []
      | Inr data \<Rightarrow>
          if cf_status data \<noteq> ''OK'' then []
          else (case codeforces_loop (cf_result data) of Inl e \<Rightarrow> [] | Inr cs \<Rightarrow> cs))"

record leetcode_entry =
  lc_title :: string
  lc_titleSlug :: string
  lc_startTime :: int
  lc_duration :: int

text \<open>
  \<^verbatim>\<open>fetch_leetcode\<close> reads the clock once, before its loop, and keeps the entries that
  start strictly later. The payload is the list under \<^verbatim>\<open>data.allContests\<close>, empty when
  either key is missing.
\<close>

fun leetcode_loop :: "datetime \<Rightarrow> leetcode_entry list \<Rightarrow> py_error + contest list" where
  "leetcode_loop current_time [] = Inr []"
| "leetcode_loop current_time (e # es) =
     (case fromtimestamp_utc (lc_startTime e) of
        Inl err \<Rightarrow> Inl err
      | Inr st \<Rightarrow>
          (case leetcode_loop current_time es of
             Inl err \<Rightarrow> Inl err
           | Inr cs \<Rightarrow>
               if dt_less current_time st then
                 Inr (\<lparr>cid = ''leetcode_'' @ lc_titleSlug e,
                       platform = ''LeetCode'',
                       title = lc_title e,
                       start_time = isoformat st,
                       duration_seconds = lc_duration e,
                       url = Some (''https://leetcode.com/contest/'' @ lc_titleSlug e)\<rparr> # cs)
               else Inr cs))"

definition fetch_leetcode :: "datetime \<Rightarrow> py_error + leetcode_entry list \<Rightarrow> contest list" where
  "fetch_leetcode now response =
     (case response of
        Inl e \<Rightarrow> []
      | Inr all_contests \<Rightarrow>
          (case leetcode_loop now all_contests of Inl e \<Rightarrow> [] | Inr cs \<Rightarrow> cs))"

text \<open>
  CodeChef sends the duration in minutes, as a JSON number or as its decimal text;
  \<^verbatim>\<open>int(...)\<close> reads either. For a text the model strips white space and reads an
  optional sign and decimal digits (Python also allows single underscores between the
  digits, which here is a \<^verbatim>\<open>ValueError\<close>).
\<close>

datatype json_scalar = JInt int | JStr string

definition is_space :: "char \<Rightarrow> bool" where
  "is_space c \<longleftrightarrow> c \<in> set [CHR '' '', CHR 0x09, CHR 0x0A, CHR 0x0B, CHR 0x0C, CHR 0x0D]"

definition strip :: "string \<Rightarrow> string" where
  "strip s = rev (dropWhile is_space (rev (dropWhile is_space s)))"

definition py_int :: "json_scalar \<Rightarrow> py_error + int" where
  "py_int v =
     (case v of
        JInt k \<Rightarrow> Inr k
      | JStr s \<Rightarrow>
          (case strip s of
             [] \<Rightarrow> Inl ValueError
           | c # cs \<Rightarrow>
               (case (if c = CHR ''-'' then map_option uminus (parse_digits cs)
                      else if c = CHR ''+'' then parse_digits cs
                      else parse_digits (c # cs)) of
                  None \<Rightarrow> Inl ValueError
                | Some k \<Rightarrow> Inr k)))"

record codechef_entry =
  cc_contest_code :: "string option"
  cc_contest_name :: "string option"
  cc_contest_start_date_iso :: "string option"
  cc_contest_duration :: "json_scalar option"

record codechef_data =
  cc_status :: "string option"
  cc_future_contests :: "codechef_entry list"

text \<open>
  The body of the \<^verbatim>\<open>try\<close> inside the loop of \<^verbatim>\<open>fetch_codechef\<close>, in its order: parse
  the start, convert it to UTC, read the name, convert the duration, read the code.
  \<open>local_offset\<close> is the offset of the system's zone, which \<^verbatim>\<open>astimezone\<close> uses for
  a text without an offset.
\<close>

definition codechef_contest :: "int \<Rightarrow> codechef_entry \<Rightarrow> py_error + contest" where
  "codechef_contest local_offset e =
     (case cc_contest_start_date_iso e of
        None \<Rightarrow> Inl KeyError
      | Some start_iso \<Rightarrow>
     (case fromisoformat start_iso of
        Inl err \<Rightarrow> Inl err
      | Inr start \<Rightarrow>
     (case astimezone_utc local_offset start of
        Inl err \<Rightarrow> Inl err
      | Inr start_time_utc \<Rightarrow>
     (case cc_contest_name e of
        None \<Rightarrow> Inl KeyError
      | Some name \<Rightarrow>
     (case cc_contest_duration e of
        None \<Rightarrow> Inl KeyError
      | Some dur \<Rightarrow>
     (case py_int dur of
        Inl err \<Rightarrow> Inl err
      | Inr minutes \<Rightarrow>
     (case cc_contest_code e of
        None \<Rightarrow> Inl KeyError
      | Some code \<Rightarrow>
          Inr \<lparr>cid = ''codechef_'' @ code,
               platform = ''CodeChef'',
               title = name,
               start_time = isoformat start_time_utc,
               duration_seconds = minutes * 60,
               url = Some (''https://www.codechef.com/'' @ code)\<rparr>)))))))"

text \<open>An entry that raises is skipped and the loop goes on.\<close>

fun codechef_loop :: "int \<Rightarrow> codechef_entry list \<Rightarrow> contest list" where
  "codechef_loop local_offset [] = []"
| "codechef_loop local_offset (e # es) =
     (case codechef_contest local_offset e of
        Inl err \<Rightarrow> codechef_loop local_offset es
      | Inr c \<Rightarrow> c # codechef_loop local_offset es)"

definition fetch_codechef :: "int \<Rightarrow> py_error + codechef_data \<Rightarrow> contest list" where
  "fetch_codechef local_offset response =
     (case response of
        Inl e \<Rightarrow> []
      | Inr data \<Rightarrow>
          if cc_status data \<noteq> Some ''success'' then []
          else codechef_loop local_offset (cc_future_contests data))"

text \<open>
  \<^verbatim>\<open>fetch_all\<close> gathers the three adapters with \<^verbatim>\<open>return_exceptions=True\<close>: each
  entry of \<open>results\<close> is what one adapter returned (\<open>Inr\<close>) or the exception it raised
  (\<open>Inl\<close>), in the order Codeforces, LeetCode, CodeChef. The loop extends
  \<open>all_contests\<close> with every entry that is a list.
\<close>

fun extend_all :: "contest list \<Rightarrow> (py_error + contest list) list \<Rightarrow> contest list" where
  "extend_all all_contests [] = all_contests"
| "extend_all all_contests (r # rs) =
     (case r of
        Inr l \<Rightarrow> extend_all (all_contests @ l) rs
      | Inl e \<Rightarrow> extend_all all_contests rs)"

definition fetch_all ::
  "py_error + contest list \<Rightarrow> py_error + contest list \<Rightarrow> py_error + contest list \<Rightarrow> contest list" where
  "fetch_all codeforces leetcode codechef = extend_all [] [codeforces, leetcode, codechef]"

section \<open>The calendar manager (\<^verbatim>\<open>calendar_manager.py\<close>)\<close>

text \<open>
  Google Calendar is the external collaborator. The model keeps the list of the requests
  sent to it; what it answers to a request may depend on the requests before. An answer
  is the error text of the exception the client raises (\<open>Inl\<close>) or the created event
  resource, of which the program reads \<^verbatim>\<open>id\<close> and \<^verbatim>\<open>htmlLink\<close>.
  \<open>authenticate_error\<close> is the text of the exception that \<^verbatim>\<open>authenticate()\<close> raises,
  \<open>None\<close> when it succeeds.
\<close>

record event_time =
  dateTime :: string
  timeZone :: string

record event_body =
  summary :: string
  description :: string
  ev_start :: event_time
  ev_end :: event_time
  useDefault :: bool
  overrides :: "(string \<times> int) list"

record event_resource =
  ev_id :: string
  htmlLink :: "string option"

datatype api_request = Insert event_body | Delete string

record calendar_api =
  authenticate_error :: "string option"
  events_insert :: "api_request list \<Rightarrow> event_body \<Rightarrow> string + event_resource"
  events_delete :: "api_request list \<Rightarrow> string \<Rightarrow> string option"

text \<open>
  The process state: the database, whether the manager holds a \<^verbatim>\<open>service\<close>, and
  the requests sent to the calendar so far.
\<close>

record system =
  db :: database
  service :: bool
  requests :: "api_request list"

definition DEFAULT_REMINDER_MINUTES :: "int list" where
  "DEFAULT_REMINDER_MINUTES = [30, 10]"

text \<open>\<^verbatim>\<open>if not self.service: self.authenticate()\<close>\<close>

definition ensure_service :: "calendar_api \<Rightarrow> system \<Rightarrow> py_error + system" where
  "ensure_service api st =
     (if service st then Inr st
      else case authenticate_error api of
             Some msg \<Rightarrow> Inl (Exception msg)
           | None \<Rightarrow> Inr (st\<lparr>service := True\<rparr>))"

definition create_contest_event ::
  "calendar_api \<Rightarrow> system \<Rightarrow> contest_row \<Rightarrow> int list option
     \<Rightarrow> (py_error + event_resource) \<times> system" where
  "create_contest_event api st contest reminder_arg =
     (case ensure_service api st of
        Inl e \<Rightarrow> (Inl e, st)
      | Inr st1 \<Rightarrow>
          let reminder_minutes =
                (case reminder_arg of None \<Rightarrow> DEFAULT_REMINDER_MINUTES | Some r \<Rightarrow> r)
          in
          (case fromisoformat (start_time contest) of
             Inl e \<Rightarrow> (Inl e, st1)
           | Inr start \<Rightarrow>
               (case dt_plus start 0 (duration_seconds contest) of
                  Inl e \<Rightarrow> (Inl e, st1)
                | Inr end_time \<Rightarrow>
                    let event =
                          \<lparr>summary = platform contest @ '': '' @ title contest,
                           description = ''Contest URL: ''
                             @ (case url contest of None \<Rightarrow> ''None'' | Some u \<Rightarrow> u),
                           ev_start = \<lparr>dateTime = isoformat start,
                                       timeZone = ''Asia/Kolkata''\<rparr>,
                           ev_end = \<lparr>dateTime = isoformat end_time,
                                     timeZone = ''Asia/Kolkata''\<rparr>,
                           useDefault = False,
                           overrides = map (\<lambda>minutes. (''popup'', minutes)) reminder_minutes\<rparr>;
                        st2 = st1\<lparr>requests := requests st1 @ [Insert event]\<rparr>
                    in
                    (case events_insert api (requests st1) event of
                       Inl msg \<Rightarrow>
                         (Inl (Exception (''Failed to create calendar event: '' @ msg)), st2)
                     | Inr event_result \<Rightarrow> (Inr event_result, st2)))))"

definition delete_event :: "calendar_api \<Rightarrow> system \<Rightarrow> string \<Rightarrow> (py_error + bool) \<times> system" where
  "delete_event api st e =
     (case ensure_service api st of
        Inl err \<Rightarrow> (Inl err, st)
      | Inr st1 \<Rightarrow>
          let st2 = st1\<lparr>requests := requests st1 @ [Delete e]\<rparr> in
          (case events_delete api (requests st1) e of
             Some msg \<Rightarrow> (Inl (Exception (''Failed to delete event: '' @ msg)), st2)
           | None \<Rightarrow> (Inr True, st2)))"

section \<open>The tools (\<^verbatim>\<open>tools.py\<close>)\<close>

text \<open>
  A tool returns a text. The model keeps which of the tool's \<^verbatim>\<open>return\<close> statements
  produced it and the values that the text carries; the wording of the text, and the
  conversion of the start time to Indian Standard Time that only serves the wording of
  the success message, are left out.
  \<^item> \<open>Conflict\<close>: ``Contest already added to calendar!'', with the event id found;
  \<^item> \<open>NotFound\<close>: ``Contest with ID ... not found'';
  \<^item> \<open>Success\<close>: ``Successfully added to Google Calendar!'', with the new event's id, the
    reminders and the link;
  \<^item> \<open>Failure\<close>: ``Error adding to calendar: ...'', with the exception caught.
\<close>

datatype booking_result =
  Success string "int list" "string option"
| Conflict "string option"
| NotFound string
| Failure py_error

definition add_contest_to_calendar_tool ::
  "calendar_api \<Rightarrow> datetime \<Rightarrow> system \<Rightarrow> string \<Rightarrow> int list option \<Rightarrow> bool
     \<Rightarrow> booking_result \<times> system" where
  "add_contest_to_calendar_tool api now st c reminder_arg force =
     (let reminder_minutes = (case reminder_arg of None \<Rightarrow> [30, 10] | Some r \<Rightarrow> r);
          (already_exists, existing) = is_contest_in_calendar (db st) c
      in
      if already_exists \<and> \<not> force then (Conflict existing, st)
      else
        (case get_contest_by_id (db st) c of
           None \<Rightarrow> (NotFound c, st)
         | Some contest \<Rightarrow>
             (case create_contest_event api st contest (Some reminder_minutes) of
                (Inl e, st1) \<Rightarrow> (Failure e, st1)
              | (Inr event, st1) \<Rightarrow>
                  (Success (ev_id event) reminder_minutes (htmlLink event),
                   st1\<lparr>db := save_calendar_event now (db st1) (ev_id event) c\<rparr>))))"

datatype delete_result = Deleted string | DeleteError py_error

definition delete_calendar_event_tool ::
  "calendar_api \<Rightarrow> system \<Rightarrow> string \<Rightarrow> delete_result \<times> system" where
  "delete_calendar_event_tool api st e =
     (case delete_event api st e of
        (Inl err, st1) \<Rightarrow> (DeleteError err, st1)
      | (Inr ok, st1) \<Rightarrow> (Deleted e, st1))"

definition set_reminder_preferences_tool :: "system \<Rightarrow> int list \<Rightarrow> system" where
  "set_reminder_preferences_tool st reminder_minutes =
     st\<lparr>db := set_preference (db st) ''default_reminders'' reminder_minutes\<rparr>"


section \<open>Sample data\<close>

text \<open>Concrete values on which the properties below are instantiated.\<close>

definition sample_now :: datetime where
  "sample_now = \<lparr>year = 2024, month = 2, day = 1, hour = 12, minute = 0, second = 0,
                 microsecond = 0, tzoffset = Some 0\<rparr>"

definition sample_later :: datetime where
  "sample_later = \<lparr>year = 2024, month = 2, day = 2, hour = 9, minute = 30, second = 0,
                   microsecond = 250000, tzoffset = Some 0\<rparr>"

definition sample_contest :: contest where
  "sample_contest =
     \<lparr>cid = ''codeforces_1'', platform = ''Codeforces'', title = ''Round 1'',
      start_time = ''2024-03-01T14:30:00+00:00'', duration_seconds = 7200,
      url = Some ''https://codeforces.com/contest/1''\<rparr>"

definition sample_contest_retitled :: contest where
  "sample_contest_retitled =
     \<lparr>cid = ''codeforces_1'', platform = ''Codeforces'', title = ''Round 1 (Div. 2)'',
      start_time = ''2024-03-02T14:30:00+00:00'', duration_seconds = 9000,
      url = None\<rparr>"

definition sample_leetcode_contest :: contest where
  "sample_leetcode_contest =
     \<lparr>cid = ''leetcode_weekly-contest-400'', platform = ''LeetCode'',
      title = ''Weekly Contest 400'',
      start_time = ''2024-03-03T02:30:00+00:00'', duration_seconds = 5400,
      url = Some ''https://leetcode.com/contest/weekly-contest-400''\<rparr>"

definition sample_row :: contest_row where
  "sample_row =
     \<lparr>cid = ''codeforces_1'', platform = ''Codeforces'', title = ''Round 1'',
      start_time = ''2024-03-01T14:30:00+00:00'', duration_seconds = 7200,
      url = Some ''https://codeforces.com/contest/1'',
      fetched_at = ''2024-02-01T12:00:00+00:00''\<rparr>"

definition sample_db :: database where
  "sample_db = \<lparr>contests = [sample_row], calendar_events = [], preferences = []\<rparr>"

definition sample_system :: system where
  "sample_system = \<lparr>db = sample_db, service = True, requests = []\<rparr>"

text \<open>A store whose mapping table names a contest that the contest table does not hold.\<close>

definition stale_mapping_system :: system where
  "stale_mapping_system =
     \<lparr>db = \<lparr>contests = [],
             calendar_events =
               [\<lparr>event_id = ''evt0'', contest_id = ''codeforces_1'',
                 created_at = ''2024-01-15T08:00:00+00:00''\<rparr>],
             preferences = []\<rparr>,
      service = True, requests = []\<rparr>"

definition sample_event :: event_resource where
  "sample_event = \<lparr>ev_id = ''evt1'', htmlLink = Some ''https://calendar.example/evt1''\<rparr>"

definition api_up :: calendar_api where
  "api_up = \<lparr>authenticate_error = None,
             events_insert = (\<lambda>log body. Inr sample_event),
             events_delete = (\<lambda>log e. None)\<rparr>"

definition api_down :: calendar_api where
  "api_down = \<lparr>authenticate_error = None,
               events_insert = (\<lambda>log body. Inl ''quota exceeded''),
               events_delete = (\<lambda>log e. Some ''not found'')\<rparr>"

definition sample_body :: event_body where
  "sample_body =
     \<lparr>summary = ''Codeforces: Round 1'',
      description = ''Contest URL: https://codeforces.com/contest/1'',
      ev_start = \<lparr>dateTime = ''2024-03-01T14:30:00+00:00'', timeZone = ''Asia/Kolkata''\<rparr>,
      ev_end = \<lparr>dateTime = ''2024-03-01T16:30:00+00:00'', timeZone = ''Asia/Kolkata''\<rparr>,
      useDefault = False,
      overrides = [(''popup'', 30), (''popup'', 10)]\<rparr>"

definition sample_mapping :: calendar_event where
  "sample_mapping =
     \<lparr>event_id = ''evt1'', contest_id = ''codeforces_1'',
      created_at = ''2024-02-01T12:00:00+00:00''\<rparr>"






text \<open>An entry of CodeChef's \<^verbatim>\<open>future_contests\<close> list.\<close>

definition sample_codechef_entry :: codechef_entry where
  "sample_codechef_entry =
     \<lparr>cc_contest_code = Some ''START123'',
      cc_contest_name = Some ''Starters 123'',
      cc_contest_start_date_iso = Some ''2024-03-01T20:00:00+05:30'',
      cc_contest_duration = Some (JStr ''150'')\<rparr>"

definition sample_codechef_data :: codechef_data where
  "sample_codechef_data =
     \<lparr>cc_status = Some ''success'', cc_future_contests = [sample_codechef_entry]\<rparr>"

definition sample_codechef_start :: datetime where
  "sample_codechef_start = \<lparr>year = 2024, month = 3, day = 1, hour = 14, minute = 30,
                            second = 0, microsecond = 0, tzoffset = Some 0\<rparr>"

section \<open>Properties of the aggregator\<close>

lemma extend_all_append:
  "extend_all acc rs = acc @ concat (map (\<lambda>r. case r of Inl e \<Rightarrow> [] | Inr l \<Rightarrow> l) rs)"
  by (induction rs arbitrary: acc) (auto split: sum.splits)

text \<open>
  C5. Whatever the three adapters did, \<open>fetch_all\<close> returns (it is a total function: no
  outcome makes it raise) the records of the adapters that returned a list, in the
  adapters' order, and nothing for an adapter that raised. When one adapter raises and
  the other two return, the result is the two lists together, whichever adapter it was.
\<close>

theorem fetch_all_successful_only:
  "fetch_all a b c =
     (case a of Inl e \<Rightarrow> [] | Inr l \<Rightarrow> l) @ (case b of Inl e \<Rightarrow> [] | Inr l \<Rightarrow> l)
       @ (case c of Inl e \<Rightarrow> [] | Inr l \<Rightarrow> l)
   \<and> fetch_all (Inl e1) (Inr l2) (Inr l3) = l2 @ l3
   \<and> fetch_all (Inr l1) (Inl e2) (Inr l3) = l1 @ l3
   \<and> fetch_all (Inr l1) (Inr l2) (Inl e3) = l1 @ l2"
  by (simp add: fetch_all_def extend_all_append)

theorem fetch_all_successful_only_witness:
  "fetch_all (Inr [sample_contest]) (Inl (Exception ''timeout'')) (Inr [sample_leetcode_contest])
     = [sample_contest, sample_leetcode_contest]"
  using fetch_all_successful_only
          [of "Inr [sample_contest]" "Inl (Exception ''timeout'')" "Inr [sample_leetcode_contest]"]
  by simp

section \<open>Properties of the store\<close>

lemma filter_insert_or_replace:
  "filter (\<lambda>r. cid r = cid row) (insert_or_replace_contest row rows) = [row]"
  by (induction rows) (auto simp: insert_or_replace_contest_def)

text \<open>
  C6. Two contest records with the same id are saved one after the other, in two calls of
  \<open>save_contests\<close> or in one. Whatever the store held before, it then holds exactly one
  row with that id. Every column of that row comes from the second record (an absent
  \<^verbatim>\<open>url\<close> is stored as the empty text) and \<open>fetched_at\<close> is the clock reading of the
  second write; nothing of the first record is left.
\<close>

theorem upsert_last_write_wins:
  assumes "cid c1 = cid c2"
  shows "filter (\<lambda>r. cid r = cid c2)
           (contests (save_contests clock2 [c2] (save_contests clock1 [c1] d)))
         = [\<lparr>cid = cid c2, platform = platform c2, title = title c2,
              start_time = start_time c2, duration_seconds = duration_seconds c2,
              url = Some (case url c2 of None \<Rightarrow> [] | Some u \<Rightarrow> u),
              fetched_at = isoformat (clock2 0)\<rparr>]
       \<and> filter (\<lambda>r. cid r = cid c2) (contests (save_contests clock [c1, c2] d))
         = [\<lparr>cid = cid c2, platform = platform c2, title = title c2,
              start_time = start_time c2, duration_seconds = duration_seconds c2,
              url = Some (case url c2 of None \<Rightarrow> [] | Some u \<Rightarrow> u),
              fetched_at = isoformat (clock 1)\<rparr>]"
  using filter_insert_or_replace[of "contest_to_row c2 s" for s] assms
  by (simp add: contest_to_row_def)

theorem upsert_last_write_wins_witness:
  "contests (save_contests (\<lambda>i. sample_later) [sample_contest_retitled]
               (save_contests (\<lambda>i. sample_now) [sample_contest] sample_db))
     = [\<lparr>cid = ''codeforces_1'', platform = ''Codeforces'', title = ''Round 1 (Div. 2)'',
          start_time = ''2024-03-02T14:30:00+00:00'', duration_seconds = 9000,
          url = Some [], fetched_at = ''2024-02-02T09:30:00.250000+00:00''\<rparr>]"
proof -
  have same: "cid sample_contest = cid sample_contest_retitled"
    by (simp add: sample_contest_def sample_contest_retitled_def)
  have only: "contests (save_contests (\<lambda>i. sample_later) [sample_contest_retitled]
                 (save_contests (\<lambda>i. sample_now) [sample_contest] sample_db))
              = filter (\<lambda>r. cid r = cid sample_contest_retitled)
                  (contests (save_contests (\<lambda>i. sample_later) [sample_contest_retitled]
                     (save_contests (\<lambda>i. sample_now) [sample_contest] sample_db)))"
    by (simp add: sample_contest_def sample_contest_retitled_def sample_db_def sample_row_def
          insert_or_replace_contest_def contest_to_row_def)
  have stamp: "isoformat sample_later = ''2024-02-02T09:30:00.250000+00:00''"
    by code_simp
  show ?thesis
    using upsert_last_write_wins[OF same, of "\<lambda>i. sample_later" "\<lambda>i. sample_now" sample_db]
    by (subst only) (simp add: stamp sample_contest_retitled_def)
qed

section \<open>Properties of the tools\<close>



text \<open>
  What \<open>create_contest_event\<close> does to the state: the database is never touched, and
  either no request is sent and an exception comes back, or exactly one insert request
  is sent, with the reminders it was given, and the answer decides the result.
\<close>

lemma create_requests:
  "create_contest_event api st contest (Some rm) = (res, st') \<Longrightarrow>
     db st' = db st \<and>
     (requests st' = requests st \<and> (\<exists>e. res = Inl e) \<or>
      (\<exists>body. requests st' = requests st @ [Insert body] \<and>
         overrides body = map (\<lambda>minutes. (''popup'', minutes)) rm \<and>
         res = (case events_insert api (requests st) body of
                  Inl msg \<Rightarrow> Inl (Exception (''Failed to create calendar event: '' @ msg))
                | Inr ev \<Rightarrow> Inr ev)))"
  by (auto simp: create_contest_event_def ensure_service_def Let_def
           split: sum.splits option.splits if_splits)

text \<open>The three ways through \<open>add_contest_to_calendar_tool\<close>.\<close>

lemma tool_cases:
  assumes "add_contest_to_calendar_tool api now st c r force = (res, st')"
  shows "(fst (is_contest_in_calendar (db st) c) \<and> \<not> force \<and>
            res = Conflict (snd (is_contest_in_calendar (db st) c)) \<and> st' = st)
       \<or> (\<not> (fst (is_contest_in_calendar (db st) c) \<and> \<not> force) \<and>
            get_contest_by_id (db st) c = None \<and> res = NotFound c \<and> st' = st)
       \<or> (\<exists>contest cr st1.
            \<not> (fst (is_contest_in_calendar (db st) c) \<and> \<not> force) \<and>
            get_contest_by_id (db st) c = Some contest \<and>
            create_contest_event api st contest
              (Some (case r of None \<Rightarrow> [30, 10] | Some x \<Rightarrow> x)) = (cr, st1) \<and>
            (case cr of
               Inl e \<Rightarrow> res = Failure e \<and> st' = st1
             | Inr ev \<Rightarrow>
                 res = Success (ev_id ev) (case r of None \<Rightarrow> [30, 10] | Some x \<Rightarrow> x)
                         (htmlLink ev)
                 \<and> st' = st1\<lparr>db := save_calendar_event now (db st1) (ev_id ev) c\<rparr>))"
  using assms
  by (auto simp: add_contest_to_calendar_tool_def Let_def
           split: prod.splits if_splits option.splits sum.splits)

text \<open>
  When the tool has sent an insert request, it went through \<open>create_contest_event\<close>
  on a contest it found and with no booking in its way.
\<close>

lemma tool_sent_insert:
  assumes "add_contest_to_calendar_tool api now st c r force = (res, st')"
      and "requests st' = requests st @ [Insert body]"
  shows "\<not> (fst (is_contest_in_calendar (db st) c) \<and> \<not> force)
       \<and> overrides body = map (\<lambda>minutes. (''popup'', minutes))
                             (case r of None \<Rightarrow> [30, 10] | Some x \<Rightarrow> x)
       \<and> (case events_insert api (requests st) body of
            Inl msg \<Rightarrow>
              res = Failure (Exception (''Failed to create calendar event: '' @ msg))
              \<and> db st' = db st
          | Inr ev \<Rightarrow>
              res = Success (ev_id ev) (case r of None \<Rightarrow> [30, 10] | Some x \<Rightarrow> x)
                      (htmlLink ev)
              \<and> db st' = save_calendar_event now (db st) (ev_id ev) c)"
proof -
  from tool_cases[OF assms(1)] assms(2)
  obtain contest cr st1 where
    free: "\<not> (fst (is_contest_in_calendar (db st) c) \<and> \<not> force)" and
    cr: "create_contest_event api st contest
           (Some (case r of None \<Rightarrow> [30, 10] | Some x \<Rightarrow> x)) = (cr, st1)" and
    out: "case cr of
            Inl e \<Rightarrow> res = Failure e \<and> st' = st1
          | Inr ev \<Rightarrow>
              res = Success (ev_id ev) (case r of None \<Rightarrow> [30, 10] | Some x \<Rightarrow> x)
                      (htmlLink ev)
              \<and> st' = st1\<lparr>db := save_calendar_event now (db st1) (ev_id ev) c\<rparr>"
    by auto
  have rq: "requests st' = requests st1"
    using out by (auto split: sum.splits)
  from create_requests[OF cr] rq assms(2)
  have dbs: "db st1 = db st"
    and ov: "overrides body = map (\<lambda>minutes. (''popup'', minutes))
                                (case r of None \<Rightarrow> [30, 10] | Some x \<Rightarrow> x)"
    and crv: "cr = (case events_insert api (requests st) body of
                      Inl msg \<Rightarrow> Inl (Exception (''Failed to create calendar event: '' @ msg))
                    | Inr ev \<Rightarrow> Inr ev)"
    by auto
  show ?thesis
    using free ov out crv dbs by (auto split: sum.splits)
qed

text \<open>
  C1. A booking whose caller gives no reminder offsets, made while a default-reminders
  preference \<open>p\<close> is stored: the insert request that the tool sends carries the
  reminders 30 and 10, whatever \<open>p\<close> is. The tool never reads the preference.
\<close>

theorem booking_ignores_stored_default:
  assumes "get_preference (db st) ''default_reminders'' None = Some p"
      and "add_contest_to_calendar_tool api now st c None force = (res, st')"
      and "requests st' = requests st @ [Insert body]"
  shows "overrides body = [(''popup'', 30), (''popup'', 10)]"
  using tool_sent_insert[OF assms(2,3)] by simp

theorem booking_ignores_stored_default_witness:
  "get_preference (db (set_reminder_preferences_tool sample_system [60]))
     ''default_reminders'' None = Some [60]
   \<and> requests (snd (add_contest_to_calendar_tool api_up sample_now
                      (set_reminder_preferences_tool sample_system [60])
                      ''codeforces_1'' None False))
       = [Insert sample_body]
   \<and> overrides sample_body = [(''popup'', 30), (''popup'', 10)]"
proof -
  have pref: "get_preference (db (set_reminder_preferences_tool sample_system [60]))
                ''default_reminders'' None = Some [60]"
    by code_simp
  have run: "add_contest_to_calendar_tool api_up sample_now
               (set_reminder_preferences_tool sample_system [60]) ''codeforces_1'' None False
             = (Success ''evt1'' [30, 10] (Some ''https://calendar.example/evt1''),
                \<lparr>db = \<lparr>contests = [sample_row], calendar_events = [sample_mapping],
                        preferences = [(''default_reminders'', [60])]\<rparr>,
                 service = True, requests = [Insert sample_body]\<rparr>)"
    by code_simp
  have sent: "requests \<lparr>db = \<lparr>contests = [sample_row], calendar_events = [sample_mapping],
                        preferences = [(''default_reminders'', [60])]\<rparr>,
                 service = True, requests = [Insert sample_body]\<rparr>
              = requests (set_reminder_preferences_tool sample_system [60]) @ [Insert sample_body]"
    by (simp add: set_reminder_preferences_tool_def sample_system_def)
  show ?thesis
    using booking_ignores_stored_default[OF pref run sent] pref run by simp
qed



text \<open>
  C3, as the code has it. For a contest id that the store does not hold, the tool looks
  at the mapping table first: with a mapping row for that id and without \<open>force\<close> the
  result is Conflict with that row's event id; in every other case it is NotFound. The
  state is unchanged either way.
\<close>

theorem absent_contest_result:
  assumes "get_contest_by_id (db st) c = None"
  shows "add_contest_to_calendar_tool api now st c r force =
           (if fst (is_contest_in_calendar (db st) c) \<and> \<not> force
            then Conflict (snd (is_contest_in_calendar (db st) c)) else NotFound c, st)"
  using assms by (auto simp: add_contest_to_calendar_tool_def Let_def split: prod.splits)

theorem absent_contest_result_witness:
  "add_contest_to_calendar_tool api_up sample_now stale_mapping_system ''codeforces_1'' None True
     = (NotFound ''codeforces_1'', stale_mapping_system)
   \<and> add_contest_to_calendar_tool api_up sample_now sample_system ''leetcode_x'' None False
     = (NotFound ''leetcode_x'', sample_system)"
proof -
  have a1: "get_contest_by_id (db stale_mapping_system) ''codeforces_1'' = None"
    by code_simp
  have a2: "get_contest_by_id (db sample_system) ''leetcode_x'' = None"
    by code_simp
  have b2: "\<not> fst (is_contest_in_calendar (db sample_system) ''leetcode_x'')"
    by code_simp
  show ?thesis
    using absent_contest_result[OF a1, of api_up sample_now None True]
          absent_contest_result[OF a2, of api_up sample_now None False] b2
    by simp
qed

text \<open>
  The claim C3 as it was stated fails: the contest \<open>codeforces_1\<close> is not in the store,
  a mapping row for it is, and a booking without \<open>force\<close> answers Conflict.
\<close>

theorem absent_contest_conflict_counterexample:
  "get_contest_by_id (db stale_mapping_system) ''codeforces_1'' = None
   \<and> fst (add_contest_to_calendar_tool api_up sample_now stale_mapping_system
            ''codeforces_1'' None False) = Conflict (Some ''evt0'')"
  by code_simp

text \<open>
  C8. A booking of a stored contest sends its insert request and the calendar refuses it
  with the text \<open>msg\<close>: the tool returns Failure with the exception
  ``Failed to create calendar event: \<open>msg\<close>'', and the database (contests, mapping table
  and preferences) is as it was before the call.
\<close>

theorem booking_failure_persists_nothing:
  assumes "get_contest_by_id (db st) c = Some contest"
      and "add_contest_to_calendar_tool api now st c r force = (res, st')"
      and "requests st' = requests st @ [Insert body]"
      and "events_insert api (requests st) body = Inl msg"
  shows "res = Failure (Exception (''Failed to create calendar event: '' @ msg))
       \<and> db st' = db st"
  using tool_sent_insert[OF assms(2,3)] assms(4) by simp

theorem booking_failure_persists_nothing_witness:
  "add_contest_to_calendar_tool api_down sample_now sample_system ''codeforces_1'' None False
     = (Failure (Exception ''Failed to create calendar event: quota exceeded''),
        \<lparr>db = sample_db, service = True, requests = [Insert sample_body]\<rparr>)"
proof -
  let ?st1 = "\<lparr>db = sample_db, service = True, requests = [Insert sample_body]\<rparr>"
  have stored: "get_contest_by_id (db sample_system) ''codeforces_1'' = Some sample_row"
    by code_simp
  obtain res st' where
    run: "add_contest_to_calendar_tool api_down sample_now sample_system ''codeforces_1''
            None False = (res, st')"
    by (cases "add_contest_to_calendar_tool api_down sample_now sample_system ''codeforces_1''
                 None False")
  have shape: "service st' = True \<and> requests st' = [Insert sample_body]"
  proof -
    have "service (snd (add_contest_to_calendar_tool api_down sample_now sample_system
                          ''codeforces_1'' None False)) = True
          \<and> requests (snd (add_contest_to_calendar_tool api_down sample_now sample_system
                          ''codeforces_1'' None False)) = [Insert sample_body]"
      by code_simp
    with run show ?thesis by simp
  qed
  then have sent: "requests st' = requests sample_system @ [Insert sample_body]"
    by (simp add: sample_system_def)
  have answer: "events_insert api_down (requests sample_system) sample_body
                  = Inl ''quota exceeded''"
    by (simp add: api_down_def)
  from booking_failure_persists_nothing[OF stored run sent answer]
  have "res = Failure (Exception ''Failed to create calendar event: quota exceeded'')"
    and "db st' = sample_db"
    by (simp_all add: sample_system_def)
  with shape run show ?thesis by (cases st') simp
qed

text \<open>
  C9. \<open>delete_calendar_event_tool\<close> leaves the database as it is, its answer does not
  depend on the database (replace the database by any other and the answer is the same),
  and the only request it can send is the delete of the given event id. When a service
  is at hand, or authentication succeeds, and the calendar accepts the delete, the tool
  reports the deletion, whether or not a mapping row names the event.
\<close>

theorem delete_tool_frame:
  "db (snd (delete_calendar_event_tool api st e)) = db st
   \<and> fst (delete_calendar_event_tool api (st\<lparr>db := d\<rparr>) e)
       = fst (delete_calendar_event_tool api st e)
   \<and> (requests (snd (delete_calendar_event_tool api st e)) = requests st
      \<or> requests (snd (delete_calendar_event_tool api st e)) = requests st @ [Delete e])
   \<and> ((service st \<or> authenticate_error api = None) \<and> events_delete api (requests st) e = None
        \<longrightarrow> fst (delete_calendar_event_tool api st e) = Deleted e)"
  by (auto simp: delete_calendar_event_tool_def delete_event_def ensure_service_def Let_def
           split: sum.splits option.splits prod.splits if_splits)

theorem delete_tool_frame_witness:
  "find (\<lambda>r. event_id r = ''evt9'') (calendar_events (db sample_system)) = None
   \<and> fst (delete_calendar_event_tool api_up sample_system ''evt9'') = Deleted ''evt9''
   \<and> db (snd (delete_calendar_event_tool api_up sample_system ''evt9'')) = db sample_system"
proof -
  have nomap: "find (\<lambda>r. event_id r = ''evt9'') (calendar_events (db sample_system)) = None"
    by code_simp
  have ok: "(service sample_system \<or> authenticate_error api_up = None)
            \<and> events_delete api_up (requests sample_system) ''evt9'' = None"
    by (simp add: sample_system_def api_up_def)
  show ?thesis
    using delete_tool_frame[of api_up sample_system "''evt9''"] ok nomap by blast
qed

section \<open>Properties of the upcoming-contests query\<close>



section \<open>Properties of dates and times\<close>

lemma month_cases:
  "1 \<le> m \<Longrightarrow> m \<le> 12 \<Longrightarrow>
     m = 1 \<or> m = 2 \<or> m = 3 \<or> m = 4 \<or> m = 5 \<or> m = 6 \<or> m = 7 \<or> m = 8 \<or> m = 9
       \<or> m = 10 \<or> m = 11 \<or> m = (12::int)"
  by arith

lemma days_before_month_Suc:
  "1 \<le> m \<Longrightarrow> m < 12 \<Longrightarrow>
     days_before_month y (m + 1) = days_before_month y m + days_in_month y m"
  using month_cases[of m]
  by (auto simp: days_before_month_def days_in_month_def days_in_month_tbl_def
        days_before_month_tbl_def)

lemma days_before_month_12:
  "days_before_month y 12 + 31 = 365 + (if is_leap y then 1 else 0)"
  by (simp add: days_before_month_def days_before_month_tbl_def)

lemma days_before_month_1: "days_before_month y 1 = 0"
  by (simp add: days_before_month_def days_before_month_tbl_def)

lemma days_in_month_bounds:
  "1 \<le> m \<Longrightarrow> m \<le> 12 \<Longrightarrow> 28 \<le> days_in_month y m \<and> days_in_month y m \<le> 31"
  using month_cases[of m]
  by (auto simp: days_in_month_def days_in_month_tbl_def)

lemma div_step:
  assumes k: "(0::int) < k"
  shows "y div k = (y - 1) div k + (if y mod k = 0 then 1 else 0)"
proof (cases "y mod k = 0")
  case True
  have "y = k * (y div k) + y mod k" by simp
  then have "y - 1 = k * (y div k - 1) + (k - 1)" using True by (simp add: algebra_simps)
  then have "(y - 1) div k = y div k - 1"
    using k int_div_pos_eq[of "y - 1" k "y div k - 1" "k - 1"] by simp
  then show ?thesis using True by simp
next
  case False
  have b: "0 \<le> y mod k" "y mod k < k" using k by simp_all
  have "y = k * (y div k) + y mod k" by simp
  then have "y - 1 = k * (y div k) + (y mod k - 1)" by simp
  then have "(y - 1) div k = y div k"
    using b False int_div_pos_eq[of "y - 1" k "y div k" "y mod k - 1"] by simp
  then show ?thesis using False by simp
qed

lemma mod_100_4: "(y::int) mod 100 = 0 \<Longrightarrow> y mod 4 = 0"
  by presburger

lemma mod_400_100: "(y::int) mod 400 = 0 \<Longrightarrow> y mod 100 = 0"
  by presburger

lemma days_before_year_Suc:
  "days_before_year (y + 1) = days_before_year y + 365 + (if is_leap y then 1 else 0)"
proof -
  have d4: "y div 4 = (y - 1) div 4 + (if y mod 4 = 0 then 1 else 0)"
    by (rule div_step) simp
  have d100: "y div 100 = (y - 1) div 100 + (if y mod 100 = 0 then 1 else 0)"
    by (rule div_step) simp
  have d400: "y div 400 = (y - 1) div 400 + (if y mod 400 = 0 then 1 else 0)"
    by (rule div_step) simp
  have lhs: "days_before_year (y + 1) = y * 365 + y div 4 - y div 100 + y div 400"
    by (simp add: days_before_year_def Let_def)
  have rhs: "days_before_year y = (y - 1) * 365 + (y - 1) div 4 - (y - 1) div 100 + (y - 1) div 400"
    by (simp add: days_before_year_def Let_def)
  show ?thesis
  proof (cases "y mod 400 = 0")
    case True
    then have "y mod 100 = 0" by (rule mod_400_100)
    moreover from this have "y mod 4 = 0" by (rule mod_100_4)
    ultimately have "y mod 100 = 0 \<and> y mod 4 = 0" by simp
    then show ?thesis unfolding lhs rhs d4 d100 d400 using True by (simp add: is_leap_def)
  next
    case n400: False
    show ?thesis
    proof (cases "y mod 100 = 0")
      case True
      then have "y mod 4 = 0" by (rule mod_100_4)
      then show ?thesis unfolding lhs rhs d4 d100 d400 using True n400 by (simp add: is_leap_def)
    next
      case False
      then show ?thesis unfolding lhs rhs d4 d100 d400 using n400 by (simp add: is_leap_def)
    qed
  qed
qed

lemma normalize_y_m_d_near:
  assumes "1 \<le> m" "m \<le> 12" "0 \<le> d" "d \<le> days_in_month y m + 1"
  shows "\<exists>y' m' d'. normalize_y_m_d y m d = Inr (y', m', d')
           \<and> 1 \<le> m' \<and> m' \<le> 12 \<and> 1 \<le> d' \<and> d' \<le> days_in_month y' m'
           \<and> ymd_to_ord y' m' d' = ymd_to_ord y m d
           \<and> (y' = y \<or> (y' = y - 1 \<and> d = 0 \<and> m' = 12 \<and> d' = 31)
                \<or> (y' = y + 1 \<and> d = 32 \<and> m' = 1 \<and> d' = 1))"
proof -
  have dim: "28 \<le> days_in_month y m" "days_in_month y m \<le> 31"
    using days_in_month_bounds[OF assms(1,2)] by auto
  consider (lo) "d = 0" | (hi) "d = days_in_month y m + 1" | (mid) "1 \<le> d" "d \<le> days_in_month y m"
    using assms by arith
  then show ?thesis
  proof cases
    case lo
    show ?thesis
    proof (cases "m = 1")
      case True
      then show ?thesis
        using lo days_before_year_Suc[of "y - 1"] days_before_month_12[of "y - 1"]
        by (simp add: normalize_y_m_d_def ymd_to_ord_def days_before_month_1
              days_in_month_def days_in_month_tbl_def)
    next
      case False
      then have m: "1 \<le> m - 1" "m - 1 < 12" using assms by auto
      have "28 \<le> days_in_month y (m - 1)"
        using days_in_month_bounds[of "m - 1" y] m by auto
      then show ?thesis
        using lo False m days_before_month_Suc[OF m, of y] dim
        by (simp add: normalize_y_m_d_def ymd_to_ord_def)
    qed
  next
    case hi
    show ?thesis
    proof (cases "m = 12")
      case True
      then show ?thesis
        using hi days_before_year_Suc[of y] days_before_month_12[of y] dim
        by (simp add: normalize_y_m_d_def ymd_to_ord_def days_before_month_1
              days_in_month_def days_in_month_tbl_def)
    next
      case False
      then have m: "1 \<le> m" "m < 12" using assms by auto
      have "28 \<le> days_in_month y (m + 1)"
        using days_in_month_bounds[of "m + 1" y] m by auto
      then show ?thesis
        using hi False m days_before_month_Suc[OF m, of y] dim
        by (simp add: normalize_y_m_d_def ymd_to_ord_def)
    qed
  next
    case mid
    then show ?thesis
      using assms by (simp add: normalize_y_m_d_def)
  qed
qed

lemma divmod_facts:
  fixes x :: int
  assumes "0 < c"
  shows "x = c * (x div c) + x mod c" "0 \<le> x mod c" "x mod c < c"
  using assms by simp_all

lemma shift_minutes:
  fixes sec q :: int
  assumes "0 \<le> sec" "sec < 60"
  shows "(sec + 60 * q * (- 1)) div 60 = - q" "(sec + 60 * q * (- 1)) mod 60 = sec"
proof -
  have e: "sec + 60 * q * (- 1) = 60 * (- q) + sec" by simp
  show "(sec + 60 * q * (- 1)) div 60 = - q"
    using int_div_pos_eq[OF e] assms by simp
  show "(sec + 60 * q * (- 1)) mod 60 = sec"
    using int_mod_pos_eq[OF e] assms by simp
qed

lemma offset_split:
  fixes off :: int
  assumes "- 1440 < off" "off < 1440"
  shows "\<exists>q. (off * 60) mod 86400 = 60 * q \<and> 0 \<le> q \<and> q < 1440
             \<and> off = ((off * 60) div 86400) * 1440 + q
             \<and> ((0 \<le> off \<and> (off * 60) div 86400 = 0)
                  \<or> (off < 0 \<and> (off * 60) div 86400 = - 1))"
proof (cases "0 \<le> off")
  case True
  have e: "off * 60 = 86400 * 0 + off * 60" by simp
  have d: "(off * 60) div 86400 = 0"
    using int_div_pos_eq[OF e] True assms by simp
  have m: "(off * 60) mod 86400 = off * 60"
    using int_mod_pos_eq[OF e] True assms by simp
  show ?thesis
    unfolding d m using True assms by (intro exI[of _ off]) simp
next
  case False
  have e: "off * 60 = 86400 * (- 1) + (off * 60 + 86400)" by simp
  have d: "(off * 60) div 86400 = - 1"
    using int_div_pos_eq[OF e] False assms by simp
  have m: "(off * 60) mod 86400 = off * 60 + 86400"
    using int_mod_pos_eq[OF e] False assms by simp
  show ?thesis
    unfolding d m using False assms by (intro exI[of _ "off + 1440"]) simp
qed

lemma carry_bounds:
  fixes hour minute q :: int
  assumes "0 \<le> hour" "hour < 24" "0 \<le> minute" "minute < 60" "0 \<le> q" "q < 1440"
  shows "(hour + (minute - q) div 60) div 24 = 0 \<or> (hour + (minute - q) div 60) div 24 = - 1"
proof -
  define a where "a = (minute - q) div 60"
  define b where "b = (hour + a) div 24"
  have fa: "minute - q = 60 * a + (minute - q) mod 60" "0 \<le> (minute - q) mod 60"
    "(minute - q) mod 60 < 60"
    unfolding a_def by simp_all
  have fb: "hour + a = 24 * b + (hour + a) mod 24" "0 \<le> (hour + a) mod 24"
    "(hour + a) mod 24 < 24"
    unfolding b_def by simp_all
  have "- 24 \<le> a" "a \<le> 0" using fa assms by linarith+
  then have "- 1 \<le> b" "b \<le> 0" using fb assms by linarith+
  then show ?thesis unfolding b_def a_def by linarith
qed

lemma add_datetime_timedelta_char:
  assumes "s0 = second dt + td_seconds delta * factor"
      and "u0 = microsecond dt + td_microseconds delta * factor"
      and "s1 = s0 + u0 div 1000000"
      and "mi1 = minute dt + s1 div 60"
      and "h1 = hour dt + mi1 div 60"
      and "d1 = day dt + td_days delta * factor + h1 div 24"
  shows "add_datetime_timedelta dt delta factor =
           (case normalize_date (year dt) (month dt) d1 of
              Inl e \<Rightarrow> Inl e
            | Inr (y', m', d') \<Rightarrow>
                Inr (dt\<lparr>year := y', month := m', day := d', hour := h1 mod 24,
                        minute := mi1 mod 60, second := s1 mod 60,
                        microsecond := u0 mod 1000000\<rparr>))"
  unfolding assms add_datetime_timedelta_def Let_def by (rule refl)

lemma sub_delta_shape:
  assumes v: "valid_datetime dt"
      and q: "0 \<le> q" "q < 1440"
      and t: "tdd = 0 \<or> tdd = - 1"
  shows "\<exists>y' m' d' h' mi'.
           add_datetime_timedelta dt
             \<lparr>td_days = tdd, td_seconds = 60 * q, td_microseconds = 0\<rparr> (- 1) =
             (if MINYEAR \<le> y' \<and> y' \<le> MAXYEAR
              then Inr (dt\<lparr>year := y', month := m', day := d', hour := h', minute := mi'\<rparr>)
              else Inl OverflowError)
           \<and> 1 \<le> m' \<and> m' \<le> 12 \<and> 1 \<le> d' \<and> d' \<le> days_in_month y' m'
           \<and> 0 \<le> h' \<and> h' < 24 \<and> 0 \<le> mi' \<and> mi' < 60
           \<and> (ymd_to_ord y' m' d' * 24 + h') * 60 + mi'
               = (ymd_to_ord (year dt) (month dt) (day dt) * 24 + hour dt) * 60 + minute dt
                 - (tdd * 1440 + q)
           \<and> (y' = year dt \<or> (y' = year dt - 1 \<and> m' = 12 \<and> d' = 31)
                \<or> (y' = year dt + 1 \<and> tdd = - 1 \<and> m' = 1 \<and> d' = 1))"
proof -
  let ?delta = "\<lparr>td_days = tdd, td_seconds = 60 * q, td_microseconds = 0\<rparr>"
  define s0 where "s0 = second dt + 60 * q * (- 1)"
  define mi1 where "mi1 = minute dt - q"
  define h1 where "h1 = hour dt + mi1 div 60"
  define d1 where "d1 = day dt - tdd + h1 div 24"
  have f: "1 \<le> month dt" "month dt \<le> 12" "1 \<le> day dt"
    "day dt \<le> days_in_month (year dt) (month dt)" "0 \<le> hour dt" "hour dt < 24"
    "0 \<le> minute dt" "minute dt < 60" "0 \<le> second dt" "second dt < 60"
    "0 \<le> microsecond dt" "microsecond dt < 1000000"
    using v by (auto simp: valid_datetime_def)
  have us: "microsecond dt div 1000000 = 0" "microsecond dt mod 1000000 = microsecond dt"
    using f by simp_all
  have sd: "s0 div 60 = - q" and sm: "s0 mod 60 = second dt"
    unfolding s0_def using shift_minutes[OF f(9,10), of q] by blast+
  have a1: "s0 = second dt + td_seconds ?delta * (- 1)" by (simp add: s0_def)
  have a2: "microsecond dt = microsecond dt + td_microseconds ?delta * (- 1)" by simp
  have a3: "s0 = s0 + microsecond dt div 1000000" using us by simp
  have a4: "mi1 = minute dt + s0 div 60" using sd by (simp add: mi1_def)
  have a5: "h1 = hour dt + mi1 div 60" by (simp add: h1_def)
  have a6: "d1 = day dt + td_days ?delta * (- 1) + h1 div 24" by (simp add: d1_def)
  note char = add_datetime_timedelta_char[OF a1 a2 a3 a4 a5 a6]
  have hq: "h1 div 24 = 0 \<or> h1 div 24 = - 1"
    unfolding h1_def mi1_def using carry_bounds[OF f(5,6,7,8) q] by blast
  have d1_rng: "0 \<le> d1" "d1 \<le> days_in_month (year dt) (month dt) + 1"
    using hq t f(3,4) unfolding d1_def by auto
  from normalize_y_m_d_near[OF f(1,2) d1_rng]
  obtain y' m' d' where
    n: "normalize_y_m_d (year dt) (month dt) d1 = Inr (y', m', d')" and
    r: "1 \<le> m'" "m' \<le> 12" "1 \<le> d'" "d' \<le> days_in_month y' m'" and
    o: "ymd_to_ord y' m' d' = ymd_to_ord (year dt) (month dt) d1" and
    yy: "y' = year dt \<or> (y' = year dt - 1 \<and> d1 = 0 \<and> m' = 12 \<and> d' = 31)
           \<or> (y' = year dt + 1 \<and> d1 = 32 \<and> m' = 1 \<and> d' = 1)"
    by blast
  have up: "d1 = 32 \<Longrightarrow> tdd = - 1"
    using hq t f(3,4) days_in_month_bounds[OF f(1,2), of "year dt"] unfolding d1_def by auto
  have yy': "y' = year dt \<or> (y' = year dt - 1 \<and> m' = 12 \<and> d' = 31)
           \<or> (y' = year dt + 1 \<and> tdd = - 1 \<and> m' = 1 \<and> d' = 1)"
    using yy up by blast
  have run: "add_datetime_timedelta dt ?delta (- 1) =
             (if MINYEAR \<le> y' \<and> y' \<le> MAXYEAR
              then Inr (dt\<lparr>year := y', month := m', day := d', hour := h1 mod 24,
                          minute := mi1 mod 60\<rparr>)
              else Inl OverflowError)"
    unfolding char normalize_date_def n using sm us by simp
  have lin: "ymd_to_ord (year dt) (month dt) d1
             = ymd_to_ord (year dt) (month dt) (day dt) - tdd + h1 div 24"
    by (simp add: ymd_to_ord_def d1_def)
  have mi1_eq: "mi1 = 60 * (mi1 div 60) + mi1 mod 60" by simp
  have h1_eq: "h1 = 24 * (h1 div 24) + h1 mod 24" by simp
  have total: "(ymd_to_ord y' m' d' * 24 + h1 mod 24) * 60 + mi1 mod 60
               = (ymd_to_ord (year dt) (month dt) (day dt) * 24 + hour dt) * 60 + minute dt
                 - (tdd * 1440 + q)"
  proof -
    define A where "A = mi1 div 60"
    define B where "B = h1 div 24"
    define M where "M = mi1 mod 60"
    define H where "H = h1 mod 24"
    define Od where "Od = ymd_to_ord (year dt) (month dt) (day dt)"
    have 1: "mi1 = 60 * A + M" unfolding A_def M_def by simp
    have 2: "h1 = 24 * B + H" unfolding B_def H_def by simp
    have 3: "h1 = hour dt + A" by (simp add: h1_def A_def)
    have 4: "mi1 = minute dt - q" by (simp add: mi1_def)
    have 5: "ymd_to_ord y' m' d' = Od - tdd + B" unfolding o lin Od_def B_def by simp
    have "(ymd_to_ord y' m' d' * 24 + H) * 60 + M = (Od * 24 + hour dt) * 60 + minute dt
            - (tdd * 1440 + q)"
    proof -
      have M: "M = minute dt - q - 60 * A" using 1 4 by linarith
      have H: "H = hour dt + A - 24 * B" using 2 3 by linarith
      show ?thesis unfolding 5 M H by (simp add: algebra_simps)
    qed
    then show ?thesis unfolding H_def M_def Od_def .
  qed
  have rng: "0 \<le> h1 mod 24" "h1 mod 24 < 24" "0 \<le> mi1 mod 60" "mi1 mod 60 < 60"
    by simp_all
  show ?thesis
    using run r rng total yy' by blast
qed

lemma astimezone_utc_shape:
  assumes v: "valid_datetime dt"
      and off: "off = (case tzoffset dt of None \<Rightarrow> lo | Some k \<Rightarrow> k)"
      and small: "- 1440 < off" "off < 1440"
  shows "\<exists>y' m' d' h' mi'.
           astimezone_utc lo dt =
             (if MINYEAR \<le> y' \<and> y' \<le> MAXYEAR
              then Inr (dt\<lparr>year := y', month := m', day := d', hour := h', minute := mi',
                          tzoffset := Some 0\<rparr>)
              else Inl OverflowError)
           \<and> 1 \<le> m' \<and> m' \<le> 12 \<and> 1 \<le> d' \<and> d' \<le> days_in_month y' m'
           \<and> 0 \<le> h' \<and> h' < 24 \<and> 0 \<le> mi' \<and> mi' < 60
           \<and> (ymd_to_ord y' m' d' * 24 + h') * 60 + mi'
               = (ymd_to_ord (year dt) (month dt) (day dt) * 24 + hour dt) * 60 + minute dt - off
           \<and> (y' = year dt \<or> (y' = year dt - 1 \<and> m' = 12 \<and> d' = 31)
                \<or> (y' = year dt + 1 \<and> off < 0 \<and> m' = 1 \<and> d' = 1))"
proof -
  from offset_split[OF small]
  obtain q where
    qm: "(off * 60) mod 86400 = 60 * q" and q: "0 \<le> q" "q < 1440" and
    qo: "off = ((off * 60) div 86400) * 1440 + q" and
    t': "(0 \<le> off \<and> (off * 60) div 86400 = 0) \<or> (off < 0 \<and> (off * 60) div 86400 = - 1)"
    by blast
  have t: "(off * 60) div 86400 = 0 \<or> (off * 60) div 86400 = - 1"
    using t' by blast
  from sub_delta_shape[OF v q t]
  obtain y' m' d' h' mi' where
    run: "add_datetime_timedelta dt
            \<lparr>td_days = (off * 60) div 86400, td_seconds = 60 * q, td_microseconds = 0\<rparr> (- 1) =
          (if MINYEAR \<le> y' \<and> y' \<le> MAXYEAR
           then Inr (dt\<lparr>year := y', month := m', day := d', hour := h', minute := mi'\<rparr>)
           else Inl OverflowError)" and
    r: "1 \<le> m'" "m' \<le> 12" "1 \<le> d'" "d' \<le> days_in_month y' m'"
       "0 \<le> h'" "h' < 24" "0 \<le> mi'" "mi' < 60" and
    tot: "(ymd_to_ord y' m' d' * 24 + h') * 60 + mi'
            = (ymd_to_ord (year dt) (month dt) (day dt) * 24 + hour dt) * 60 + minute dt
              - (((off * 60) div 86400) * 1440 + q)" and
    yy: "y' = year dt \<or> (y' = year dt - 1 \<and> m' = 12 \<and> d' = 31)
           \<or> (y' = year dt + 1 \<and> (off * 60) div 86400 = - 1 \<and> m' = 1 \<and> d' = 1)"
    by blast
  have yy': "y' = year dt \<or> (y' = year dt - 1 \<and> m' = 12 \<and> d' = 31)
           \<or> (y' = year dt + 1 \<and> off < 0 \<and> m' = 1 \<and> d' = 1)"
    using yy t' by auto
  have az: "astimezone_utc lo dt =
              (if MINYEAR \<le> y' \<and> y' \<le> MAXYEAR
               then Inr (dt\<lparr>year := y', month := m', day := d', hour := h', minute := mi',
                           tzoffset := Some 0\<rparr>)
               else Inl OverflowError)"
    unfolding astimezone_utc_def Let_def off[symmetric] qm run by simp
  have tot': "(ymd_to_ord y' m' d' * 24 + h') * 60 + mi'
            = (ymd_to_ord (year dt) (month dt) (day dt) * 24 + hour dt) * 60 + minute dt - off"
    using tot qo by linarith
  show ?thesis
    using az r tot' yy' by blast
qed

lemma digit_val_range: "digit_val c = Some k \<Longrightarrow> 0 \<le> k \<and> k \<le> 9"
  by (auto simp: digit_val_def Let_def split: if_splits)

lemma parse_digits_acc_bounds:
  "parse_digits_acc acc s = Some k \<Longrightarrow> 0 \<le> acc \<Longrightarrow>
     acc * 10 ^ length s \<le> k \<and> k < (acc + 1) * 10 ^ length s"
proof (induction s arbitrary: acc)
  case Nil
  then show ?case by simp
next
  case (Cons c cs)
  from Cons.prems(1) obtain d where d: "digit_val c = Some d"
    and rest: "parse_digits_acc (acc * 10 + d) cs = Some k"
    by (auto split: option.splits)
  have dr: "0 \<le> d" "d \<le> 9" using digit_val_range[OF d] by auto
  define P :: int where "P = 10 ^ length cs"
  have P: "0 < P" by (simp add: P_def)
  from Cons.IH[OF rest] dr Cons.prems(2)
  have ih: "(acc * 10 + d) * P \<le> k" "k < (acc * 10 + d + 1) * P"
    by (auto simp: P_def)
  define X where "X = acc * (10 * P)"
  define Y where "Y = d * P"
  have 1: "0 \<le> Y" unfolding Y_def using dr P by simp
  have 2: "Y \<le> 9 * P" unfolding Y_def using dr P by simp
  have e1: "(acc * 10 + d) * P = X + Y" unfolding X_def Y_def by (simp add: algebra_simps)
  have e2: "(acc * 10 + d + 1) * P = X + Y + P" unfolding X_def Y_def by (simp add: algebra_simps)
  have e3: "(acc + 1) * (10 * P) = X + 10 * P" unfolding X_def by (simp add: algebra_simps)
  have "X \<le> k \<and> k < X + 10 * P"
    using ih[unfolded e1 e2] 1 2 by linarith
  then have "acc * (10 * P) \<le> k \<and> k < (acc + 1) * (10 * P)"
    unfolding e3 unfolding X_def .
  then show ?case by (simp add: P_def)
qed

lemma parse_digits_bounds:
  "parse_digits s = Some k \<Longrightarrow> 0 \<le> k \<and> k < 10 ^ length s"
  using parse_digits_acc_bounds[of 0 s k]
  by (auto simp: parse_digits_def split: if_splits)

lemma parse_offset_range:
  "parse_offset s = Some (Some k) \<Longrightarrow> - 1440 < k \<and> k < 1440"
proof -
  assume a: "parse_offset s = Some (Some k)"
  show ?thesis
  proof (cases "s = [] \<or> s = ''Z''")
    case True
    then show ?thesis using a by (auto simp: parse_offset_def)
  next
    case False
    with a obtain h m where
      h: "parse_digits (take 2 (drop 1 s)) = Some h" and
      m: "parse_digits (drop 4 s) = Some m" and
      lt: "h < 24" "m < 60" and
      k: "k = (if s ! 0 = CHR ''-'' then - 1 else 1) * (h * 60 + m)"
      by (auto simp: parse_offset_def split: if_splits option.splits)
    have "0 \<le> h" "0 \<le> m"
      using parse_digits_bounds[OF h] parse_digits_bounds[OF m] by auto
    then show ?thesis using lt k by (auto split: if_splits)
  qed
qed

lemma parse_fraction_range:
  "parse_fraction s = Some (u, rest) \<Longrightarrow> 0 \<le> u \<and> u < 1000000"
proof -
  assume a: "parse_fraction s = Some (u, rest)"
  show ?thesis
  proof (cases s)
    case Nil
    then show ?thesis using a by (simp add: parse_fraction_def)
  next
    case (Cons c cs)
    show ?thesis
    proof (cases "c = CHR ''.''")
      case True
      with a Cons have len: "6 \<le> length cs" and p: "parse_digits (take 6 cs) = Some u"
        by (auto simp: parse_fraction_def split: if_splits option.splits)
      have "length (take 6 cs) = 6" using len by simp
      then show ?thesis using parse_digits_bounds[OF p] by simp
    next
      case False
      then show ?thesis using a Cons by (simp add: parse_fraction_def)
    qed
  qed
qed

lemma fromisoformat_valid:
  assumes "fromisoformat s = Inr d"
  shows "valid_datetime d \<and> (\<forall>k. tzoffset d = Some k \<longrightarrow> - 1440 < k \<and> k < 1440)"
proof -
  from assms have len: "19 \<le> length s"
    by (auto simp: fromisoformat_def split: if_splits)
  from assms obtain y mo dd h mi sec u rest off where
    py: "parse_digits (take 4 s) = Some y" and
    pmo: "parse_digits (take 2 (drop 5 s)) = Some mo" and
    pd: "parse_digits (take 2 (drop 8 s)) = Some dd" and
    ph: "parse_digits (take 2 (drop 11 s)) = Some h" and
    pmi: "parse_digits (take 2 (drop 14 s)) = Some mi" and
    ps: "parse_digits (take 2 (drop 17 s)) = Some sec" and
    pf: "parse_fraction (drop 19 s) = Some (u, rest)" and
    po: "parse_offset rest = Some off" and
    ok: "MINYEAR \<le> y" "1 \<le> mo" "mo \<le> 12" "1 \<le> dd" "dd \<le> days_in_month y mo"
        "h < 24" "mi < 60" "sec < 60" and
    d: "d = \<lparr>year = y, month = mo, day = dd, hour = h, minute = mi, second = sec,
              microsecond = u, tzoffset = off\<rparr>"
    by (auto simp: fromisoformat_def split: if_splits option.splits prod.splits)
  have "length (take 4 s) = 4" using len by simp
  then have y: "y < 10000" using parse_digits_bounds[OF py] by simp
  have nn: "0 \<le> h" "0 \<le> mi" "0 \<le> sec"
    using parse_digits_bounds[OF ph] parse_digits_bounds[OF pmi] parse_digits_bounds[OF ps]
    by auto
  have u: "0 \<le> u" "u < 1000000" using parse_fraction_range[OF pf] by auto
  have v: "valid_datetime d"
    unfolding valid_datetime_def d using ok y nn u by (simp add: MAXYEAR_def)
  have o: "\<forall>k. tzoffset d = Some k \<longrightarrow> - 1440 < k \<and> k < 1440"
    unfolding d using po parse_offset_range by auto
  from v o show ?thesis by blast
qed

section \<open>Properties of the CodeChef adapter\<close>





section \<open>Properties of the ISO rendering and of the calendar arithmetic\<close>

lemma digit_char_cases:
  "0 \<le> k \<Longrightarrow> k \<le> 9 \<Longrightarrow>
     k = 0 \<or> k = 1 \<or> k = 2 \<or> k = 3 \<or> k = 4 \<or> k = 5 \<or> k = 6 \<or> k = 7 \<or> k = 8 \<or> k = (9::int)"
  by arith

lemma digit_char_values:
  "digit_char 0 = CHR ''0''" "digit_char 1 = CHR ''1''" "digit_char 2 = CHR ''2''"
  "digit_char 3 = CHR ''3''" "digit_char 4 = CHR ''4''" "digit_char 5 = CHR ''5''"
  "digit_char 6 = CHR ''6''" "digit_char 7 = CHR ''7''" "digit_char 8 = CHR ''8''"
  "digit_char 9 = CHR ''9''"
  by code_simp+

lemma of_char_digit_char:
  "0 \<le> k \<Longrightarrow> k \<le> 9 \<Longrightarrow> (of_char (digit_char k) :: nat) = 48 + nat k"
  using digit_char_cases[of k] by (auto simp: digit_char_values)

lemma digit_char_less:
  "0 \<le> a \<Longrightarrow> a \<le> 9 \<Longrightarrow> 0 \<le> b \<Longrightarrow> b \<le> 9 \<Longrightarrow> digit_char a < digit_char b \<longleftrightarrow> a < b"
  by (auto simp: less_char_def of_char_digit_char)

lemma digit_char_eq:
  "0 \<le> a \<Longrightarrow> a \<le> 9 \<Longrightarrow> 0 \<le> b \<Longrightarrow> b \<le> 9 \<Longrightarrow> digit_char a = digit_char b \<longleftrightarrow> a = b"
proof -
  assume r: "0 \<le> a" "a \<le> 9" "0 \<le> b" "b \<le> 9"
  have "digit_char a = digit_char b \<Longrightarrow> a = b"
  proof -
    assume "digit_char a = digit_char b"
    then have "(of_char (digit_char a) :: nat) = of_char (digit_char b)" by simp
    then show "a = b" using r by (simp add: of_char_digit_char)
  qed
  then show ?thesis by auto
qed

lemma lex_append_same_length:
  fixes a b :: "'a::linorder list"
  shows "length a = length b \<Longrightarrow> a @ x < b @ y \<longleftrightarrow> a < b \<or> (a = b \<and> x < y)"
proof (induction a b rule: list_induct2)
  case Nil
  then show ?case by simp
next
  case (Cons c cs d ds)
  then show ?case by auto
qed

lemma divmod_lex:
  fixes a b M :: int
  assumes M: "0 < M"
  shows "a < b \<longleftrightarrow> a div M < b div M \<or> (a div M = b div M \<and> a mod M < b mod M)"
    and "a = b \<longleftrightarrow> a div M = b div M \<and> a mod M = b mod M"
proof -
  define qa ra qb rb where "qa = a div M" and "ra = a mod M" and "qb = b div M" and "rb = b mod M"
  have a: "a = M * qa + ra" "0 \<le> ra" "ra < M"
    unfolding qa_def ra_def using M by simp_all
  have b: "b = M * qb + rb" "0 \<le> rb" "rb < M"
    unfolding qb_def rb_def using M by simp_all
  have lt: "qa < qb \<Longrightarrow> a < b"
  proof -
    assume "qa < qb"
    then have "qa + 1 \<le> qb" by simp
    then have "M * (qa + 1) \<le> M * qb" using M by (simp add: mult_left_mono)
    then have "M * qa + M \<le> M * qb" by (simp add: algebra_simps)
    then show "a < b" using a b by linarith
  qed
  have gt: "qb < qa \<Longrightarrow> b < a"
  proof -
    assume "qb < qa"
    then have "qb + 1 \<le> qa" by simp
    then have "M * (qb + 1) \<le> M * qa" using M by (simp add: mult_left_mono)
    then have "M * qb + M \<le> M * qa" by (simp add: algebra_simps)
    then show "b < a" using a b by linarith
  qed
  have eq: "qa = qb \<Longrightarrow> (a < b \<longleftrightarrow> ra < rb) \<and> (a = b \<longleftrightarrow> ra = rb)"
    using a(1) b(1) by auto
  show "a < b \<longleftrightarrow> a div M < b div M \<or> (a div M = b div M \<and> a mod M < b mod M)"
    unfolding qa_def[symmetric] ra_def[symmetric] qb_def[symmetric] rb_def[symmetric]
    using lt gt eq by (cases "qa < qb"; cases "qb < qa") auto
  show "a = b \<longleftrightarrow> a div M = b div M \<and> a mod M = b mod M"
    by (metis div_mult_mod_eq)
qed

lemma div_range:
  fixes n M N :: int
  assumes "0 \<le> n" "n < M * N" "0 < M" "0 < N"
  shows "0 \<le> n div M" "n div M < N" "0 \<le> n mod M" "n mod M < M"
proof -
  show "0 \<le> n div M" using assms by (simp add: pos_imp_zdiv_nonneg_iff)
  show "n div M < N"
  proof (rule ccontr)
    assume "\<not> n div M < N"
    then have "N \<le> n div M" by simp
    then have "M * N \<le> M * (n div M)" using assms(3) by (simp add: mult_left_mono)
    moreover have "n = M * (n div M) + n mod M" by simp
    moreover have "0 \<le> n mod M" using assms(3) by simp
    ultimately show False using assms(2) by linarith
  qed
  show "0 \<le> n mod M" "n mod M < M" using assms by simp_all
qed

lemma pad2_order:
  assumes "0 \<le> a" "a < 100" "0 \<le> b" "b < 100"
  shows "pad2 a < pad2 b \<longleftrightarrow> a < b" and "pad2 a = pad2 b \<longleftrightarrow> a = b"
proof -
  have ra: "0 \<le> a div 10" "a div 10 \<le> 9" "0 \<le> a mod 10" "a mod 10 \<le> 9"
    using div_range[of a 10 10] assms by auto
  have rb: "0 \<le> b div 10" "b div 10 \<le> 9" "0 \<le> b mod 10" "b mod 10 \<le> 9"
    using div_range[of b 10 10] assms by auto
  show "pad2 a < pad2 b \<longleftrightarrow> a < b"
    using divmod_lex(1)[of 10 a b]
    by (simp add: pad2_def digit_char_less[OF ra(1,2) rb(1,2)] digit_char_less[OF ra(3,4) rb(3,4)]
          digit_char_eq[OF ra(1,2) rb(1,2)])
  show "pad2 a = pad2 b \<longleftrightarrow> a = b"
    using divmod_lex(2)[of 10 a b]
    by (simp add: pad2_def digit_char_eq[OF ra(1,2) rb(1,2)] digit_char_eq[OF ra(3,4) rb(3,4)])
qed

lemma length_pad2 [simp]: "length (pad2 n) = 2"
  by (simp add: pad2_def)

lemma length_pad4 [simp]: "length (pad4 n) = 4"
  by (simp add: pad4_def)

lemma length_pad6 [simp]: "length (pad6 n) = 6"
  by (simp add: pad6_def)

lemma pad4_order:
  assumes "0 \<le> a" "a < 10000" "0 \<le> b" "b < 10000"
  shows "pad4 a < pad4 b \<longleftrightarrow> a < b" and "pad4 a = pad4 b \<longleftrightarrow> a = b"
proof -
  have ra: "0 \<le> a div 100" "a div 100 < 100" "0 \<le> a mod 100" "a mod 100 < 100"
    using div_range[of a 100 100] assms by auto
  have rb: "0 \<le> b div 100" "b div 100 < 100" "0 \<le> b mod 100" "b mod 100 < 100"
    using div_range[of b 100 100] assms by auto
  show "pad4 a < pad4 b \<longleftrightarrow> a < b"
    using divmod_lex(1)[of 100 a b]
    by (simp add: pad4_def lex_append_same_length pad2_order[OF ra(1,2) rb(1,2)]
          pad2_order[OF ra(3,4) rb(3,4)])
  show "pad4 a = pad4 b \<longleftrightarrow> a = b"
    using divmod_lex(2)[of 100 a b]
    by (simp add: pad4_def pad2_order[OF ra(1,2) rb(1,2)] pad2_order[OF ra(3,4) rb(3,4)])
qed

lemma pad6_order:
  assumes "0 \<le> a" "a < 1000000" "0 \<le> b" "b < 1000000"
  shows "pad6 a < pad6 b \<longleftrightarrow> a < b" and "pad6 a = pad6 b \<longleftrightarrow> a = b"
proof -
  have ra: "0 \<le> a div 10000" "a div 10000 < 100" "0 \<le> a mod 10000" "a mod 10000 < 10000"
    using div_range[of a 10000 100] assms by auto
  have rb: "0 \<le> b div 10000" "b div 10000 < 100" "0 \<le> b mod 10000" "b mod 10000 < 10000"
    using div_range[of b 10000 100] assms by auto
  show "pad6 a < pad6 b \<longleftrightarrow> a < b"
    using divmod_lex(1)[of 10000 a b]
    by (simp add: pad6_def lex_append_same_length pad2_order[OF ra(1,2) rb(1,2)]
          pad4_order[OF ra(3,4) rb(3,4)])
  show "pad6 a = pad6 b \<longleftrightarrow> a = b"
    using divmod_lex(2)[of 10000 a b]
    by (simp add: pad6_def pad2_order[OF ra(1,2) rb(1,2)] pad4_order[OF ra(3,4) rb(3,4)])
qed

lemma format_offset_utc: "format_offset (Some 0) = ''+00:00''"
  by code_simp

lemma valid_datetime_digits:
  assumes "valid_datetime d"
  shows "0 \<le> year d" "year d < 10000" "0 \<le> month d" "month d < 100"
        "0 \<le> day d" "day d < 100" "0 \<le> hour d" "hour d < 100"
        "0 \<le> minute d" "minute d < 100" "0 \<le> second d" "second d < 100"
        "0 \<le> microsecond d" "microsecond d < 1000000"
  using assms days_in_month_bounds[of "month d" "year d"]
  by (auto simp: valid_datetime_def MINYEAR_def MAXYEAR_def)

lemma isoformat_utc_order:
  assumes va: "valid_datetime a" and vb: "valid_datetime b"
      and ua: "tzoffset a = Some 0" and ub: "tzoffset b = Some 0"
  shows "isoformat a < isoformat b \<longleftrightarrow> dt_fields a < dt_fields b"
proof -
  note A = valid_datetime_digits[OF va]
  note B = valid_datetime_digits[OF vb]
  have y: "pad4 (year a) < pad4 (year b) \<longleftrightarrow> year a < year b"
          "pad4 (year a) = pad4 (year b) \<longleftrightarrow> year a = year b"
    using pad4_order[OF A(1,2) B(1,2)] by auto
  have mo: "pad2 (month a) < pad2 (month b) \<longleftrightarrow> month a < month b"
           "pad2 (month a) = pad2 (month b) \<longleftrightarrow> month a = month b"
    using pad2_order[OF A(3,4) B(3,4)] by auto
  have dd: "pad2 (day a) < pad2 (day b) \<longleftrightarrow> day a < day b"
           "pad2 (day a) = pad2 (day b) \<longleftrightarrow> day a = day b"
    using pad2_order[OF A(5,6) B(5,6)] by auto
  have hh: "pad2 (hour a) < pad2 (hour b) \<longleftrightarrow> hour a < hour b"
           "pad2 (hour a) = pad2 (hour b) \<longleftrightarrow> hour a = hour b"
    using pad2_order[OF A(7,8) B(7,8)] by auto
  have mi: "pad2 (minute a) < pad2 (minute b) \<longleftrightarrow> minute a < minute b"
           "pad2 (minute a) = pad2 (minute b) \<longleftrightarrow> minute a = minute b"
    using pad2_order[OF A(9,10) B(9,10)] by auto
  have ss: "pad2 (second a) < pad2 (second b) \<longleftrightarrow> second a < second b"
           "pad2 (second a) = pad2 (second b) \<longleftrightarrow> second a = second b"
    using pad2_order[OF A(11,12) B(11,12)] by auto
  have us: "(if microsecond a = 0 then [] else CHR ''.'' # pad6 (microsecond a)) @ ''+00:00''
              < (if microsecond b = 0 then [] else CHR ''.'' # pad6 (microsecond b)) @ ''+00:00''
            \<longleftrightarrow> microsecond a < microsecond b"
    using A(13,14) B(13,14) pad6_order[OF A(13,14) B(13,14)]
    by (auto simp: lex_append_same_length)
  show ?thesis
    unfolding isoformat_def ua ub format_offset_utc dt_fields_def
    by (simp only: lex_append_same_length length_pad2 length_pad4 y mo dd hh mi ss us
          Cons_less_Cons append_Cons append_Nil list.inject simp_thms less_irrefl
          List_Lexorder.less_list_code not_less_Nil)
qed

lemma days_before_month_mono:
  assumes "1 \<le> m" "m \<le> k" "k \<le> 12"
  shows "days_before_month y m \<le> days_before_month y k"
  using assms(2,1,3)
proof (induction k rule: int_ge_induct)
  case base
  then show ?case by simp
next
  case (step i)
  then have "days_before_month y (i + 1) = days_before_month y i + days_in_month y i"
    by (intro days_before_month_Suc) auto
  moreover have "28 \<le> days_in_month y i"
    using days_in_month_bounds[of i y] step by auto
  ultimately show ?case using step by auto
qed

lemma day_of_year_bounds:
  assumes "1 \<le> m" "m \<le> 12" "1 \<le> d" "d \<le> days_in_month y m"
  shows "1 \<le> days_before_month y m + d"
    and "days_before_month y m + d \<le> 365 + (if is_leap y then 1 else 0)"
proof -
  have "days_before_month y 1 \<le> days_before_month y m"
    using days_before_month_mono[of 1 m y] assms by simp
  then show "1 \<le> days_before_month y m + d"
    using assms(3) by (simp add: days_before_month_1)
  show "days_before_month y m + d \<le> 365 + (if is_leap y then 1 else 0)"
  proof (cases "m = 12")
    case True
    then show ?thesis
      using assms(4) days_before_month_12[of y] days_in_month_bounds[of 12 y] by auto
  next
    case False
    then have m: "1 \<le> m" "m < 12" using assms by auto
    have "days_before_month y (m + 1) \<le> days_before_month y 12"
      using days_before_month_mono[of "m + 1" 12 y] m by simp
    then show ?thesis
      using days_before_month_Suc[OF m, of y] assms(4) days_before_month_12[of y] by auto
  qed
qed

lemma days_before_year_mono:
  assumes "y1 < y2"
  shows "days_before_year y1 + 365 + (if is_leap y1 then 1 else 0) \<le> days_before_year y2"
proof -
  have "y1 + 1 \<le> y2" using assms by simp
  then have "days_before_year (y1 + 1) \<le> days_before_year y2"
  proof (induction y2 rule: int_ge_induct)
    case base
    then show ?case by simp
  next
    case (step i)
    then show ?case using days_before_year_Suc[of i] by auto
  qed
  then show ?thesis using days_before_year_Suc[of y1] by simp
qed

lemma ymd_to_ord_lex:
  assumes "1 \<le> m1" "m1 \<le> 12" "1 \<le> d1" "d1 \<le> days_in_month y1 m1"
      and "1 \<le> m2" "m2 \<le> 12" "1 \<le> d2" "d2 \<le> days_in_month y2 m2"
  shows "ymd_to_ord y1 m1 d1 < ymd_to_ord y2 m2 d2
           \<longleftrightarrow> y1 < y2 \<or> (y1 = y2 \<and> (m1 < m2 \<or> (m1 = m2 \<and> d1 < d2)))"
    and "ymd_to_ord y1 m1 d1 = ymd_to_ord y2 m2 d2 \<longleftrightarrow> y1 = y2 \<and> m1 = m2 \<and> d1 = d2"
proof -
  note b1 = day_of_year_bounds[OF assms(1-4)]
  note b2 = day_of_year_bounds[OF assms(5-8)]
  have yl: "y1 < y2 \<Longrightarrow> ymd_to_ord y1 m1 d1 < ymd_to_ord y2 m2 d2"
    using days_before_year_mono[of y1 y2] b1 b2 by (simp add: ymd_to_ord_def)
  have yg: "y2 < y1 \<Longrightarrow> ymd_to_ord y2 m2 d2 < ymd_to_ord y1 m1 d1"
    using days_before_year_mono[of y2 y1] b1 b2 by (simp add: ymd_to_ord_def)
  have ml: "y1 = y2 \<Longrightarrow> m1 < m2 \<Longrightarrow> ymd_to_ord y1 m1 d1 < ymd_to_ord y2 m2 d2"
  proof -
    assume e: "y1 = y2" and l: "m1 < m2"
    have m: "1 \<le> m1" "m1 < 12" using assms l by auto
    have "days_before_month y1 (m1 + 1) \<le> days_before_month y1 m2"
      using days_before_month_mono[of "m1 + 1" m2 y1] assms l by simp
    then show ?thesis
      using days_before_month_Suc[OF m, of y1] assms(4,7) e by (simp add: ymd_to_ord_def)
  qed
  have mg: "y1 = y2 \<Longrightarrow> m2 < m1 \<Longrightarrow> ymd_to_ord y2 m2 d2 < ymd_to_ord y1 m1 d1"
  proof -
    assume e: "y1 = y2" and l: "m2 < m1"
    have m: "1 \<le> m2" "m2 < 12" using assms l by auto
    have "days_before_month y2 (m2 + 1) \<le> days_before_month y2 m1"
      using days_before_month_mono[of "m2 + 1" m1 y2] assms l by simp
    then show ?thesis
      using days_before_month_Suc[OF m, of y2] assms(3,8) e by (simp add: ymd_to_ord_def)
  qed
  have dl: "y1 = y2 \<Longrightarrow> m1 = m2 \<Longrightarrow>
              (ymd_to_ord y1 m1 d1 < ymd_to_ord y2 m2 d2 \<longleftrightarrow> d1 < d2)
              \<and> (ymd_to_ord y1 m1 d1 = ymd_to_ord y2 m2 d2 \<longleftrightarrow> d1 = d2)"
    by (simp add: ymd_to_ord_def)
  show "ymd_to_ord y1 m1 d1 < ymd_to_ord y2 m2 d2
           \<longleftrightarrow> y1 < y2 \<or> (y1 = y2 \<and> (m1 < m2 \<or> (m1 = m2 \<and> d1 < d2)))"
    using yl yg ml mg dl
    by (cases "y1 < y2"; cases "y2 < y1"; cases "m1 < m2"; cases "m2 < m1") auto
  show "ymd_to_ord y1 m1 d1 = ymd_to_ord y2 m2 d2 \<longleftrightarrow> y1 = y2 \<and> m1 = m2 \<and> d1 = d2"
    using yl yg ml mg dl
    by (cases "y1 < y2"; cases "y2 < y1"; cases "m1 < m2"; cases "m2 < m1") auto
qed

lemma radix_lex:
  fixes c r r' X X' :: int
  assumes "0 \<le> r" "r < c" "0 \<le> r'" "r' < c"
  shows "X * c + r < X' * c + r' \<longleftrightarrow> X < X' \<or> (X = X' \<and> r < r')"
    and "X * c + r = X' * c + r' \<longleftrightarrow> X = X' \<and> r = r'"
proof -
  have c: "0 < c" using assms by linarith
  have lt: "X < X' \<Longrightarrow> X * c + r < X' * c + r'"
  proof -
    assume "X < X'"
    then have "X + 1 \<le> X'" by simp
    then have "(X + 1) * c \<le> X' * c" using c by (simp add: mult_right_mono)
    then have "X * c + c \<le> X' * c" by (simp add: algebra_simps)
    then show ?thesis using assms by linarith
  qed
  have gt: "X' < X \<Longrightarrow> X' * c + r' < X * c + r"
  proof -
    assume "X' < X"
    then have "X' + 1 \<le> X" by simp
    then have "(X' + 1) * c \<le> X * c" using c by (simp add: mult_right_mono)
    then have "X' * c + c \<le> X * c" by (simp add: algebra_simps)
    then show ?thesis using assms by linarith
  qed
  show "X * c + r < X' * c + r' \<longleftrightarrow> X < X' \<or> (X = X' \<and> r < r')"
    using lt gt by (cases "X < X'"; cases "X' < X") auto
  show "X * c + r = X' * c + r' \<longleftrightarrow> X = X' \<and> r = r'"
    using lt gt by (cases "X < X'"; cases "X' < X") auto
qed

lemma instant_order:
  assumes va: "valid_datetime a" and vb: "valid_datetime b"
      and same: "tzoffset a = tzoffset b"
  shows "instant a < instant b \<longleftrightarrow> dt_fields a < dt_fields b"
proof -
  have A: "1 \<le> month a" "month a \<le> 12" "1 \<le> day a" "day a \<le> days_in_month (year a) (month a)"
    "0 \<le> hour a" "hour a < 24" "0 \<le> minute a" "minute a < 60" "0 \<le> second a" "second a < 60"
    "0 \<le> microsecond a" "microsecond a < 1000000"
    using va by (auto simp: valid_datetime_def)
  have B: "1 \<le> month b" "month b \<le> 12" "1 \<le> day b" "day b \<le> days_in_month (year b) (month b)"
    "0 \<le> hour b" "hour b < 24" "0 \<le> minute b" "minute b < 60" "0 \<le> second b" "second b < 60"
    "0 \<le> microsecond b" "microsecond b < 1000000"
    using vb by (auto simp: valid_datetime_def)
  define k where "k = (case tzoffset a of None \<Rightarrow> 0 | Some k \<Rightarrow> k)"
  define oa where "oa = ymd_to_ord (year a) (month a) (day a)"
  define ob where "ob = ymd_to_ord (year b) (month b) (day b)"
  define t1a where "t1a = (oa - 1) * 24 + hour a"
  define t1b where "t1b = (ob - 1) * 24 + hour b"
  define t2a where "t2a = t1a * 60 + minute a"
  define t2b where "t2b = t1b * 60 + minute b"
  define t3a where "t3a = (t2a - k) * 60 + second a"
  define t3b where "t3b = (t2b - k) * 60 + second b"
  have ia: "instant a = t3a * 1000000 + microsecond a"
    by (simp add: instant_def t3a_def t2a_def t1a_def oa_def k_def)
  have ib: "instant b = t3b * 1000000 + microsecond b"
    by (simp add: instant_def t3b_def t2b_def t1b_def ob_def k_def same)
  note l0 = ymd_to_ord_lex[OF A(1-4) B(1-4), folded oa_def ob_def]
  have l1: "t1a < t1b \<longleftrightarrow> oa < ob \<or> (oa = ob \<and> hour a < hour b)"
           "t1a = t1b \<longleftrightarrow> oa = ob \<and> hour a = hour b"
    unfolding t1a_def t1b_def using radix_lex[OF A(5,6) B(5,6), of "oa - 1" "ob - 1"] by auto
  have l2: "t2a < t2b \<longleftrightarrow> t1a < t1b \<or> (t1a = t1b \<and> minute a < minute b)"
           "t2a = t2b \<longleftrightarrow> t1a = t1b \<and> minute a = minute b"
    unfolding t2a_def t2b_def using radix_lex[OF A(7,8) B(7,8), of t1a t1b] by auto
  have l3: "t3a < t3b \<longleftrightarrow> t2a < t2b \<or> (t2a = t2b \<and> second a < second b)"
           "t3a = t3b \<longleftrightarrow> t2a = t2b \<and> second a = second b"
    unfolding t3a_def t3b_def using radix_lex[OF A(9,10) B(9,10), of "t2a - k" "t2b - k"] by auto
  have l4: "instant a < instant b \<longleftrightarrow> t3a < t3b \<or> (t3a = t3b \<and> microsecond a < microsecond b)"
    unfolding ia ib using radix_lex(1)[OF A(11,12) B(11,12), of t3a t3b] by auto
  show ?thesis
    unfolding l4 l3 l2 l1 l0 dt_fields_def by auto
qed

lemma month_day_valid:
  assumes nn: "0 \<le> nn" "nn \<le> 364"
      and m: "m = (nn + 50) div 32"
  shows "1 \<le> m \<and> m \<le> 12
         \<and> (if days_before_month y m > nn
             then 1 \<le> m - 1
                  \<and> 1 \<le> nn - (days_before_month y m - days_in_month y (m - 1)) + 1
                  \<and> nn - (days_before_month y m - days_in_month y (m - 1)) + 1
                      \<le> days_in_month y (m - 1)
             else 1 \<le> nn - days_before_month y m + 1
                  \<and> nn - days_before_month y m + 1 \<le> days_in_month y m)"
proof -
  have e: "nn + 50 = 32 * m + (nn + 50) mod 32" "0 \<le> (nn + 50) mod 32" "(nn + 50) mod 32 < 32"
    unfolding m by simp_all
  have r: "1 \<le> m" "m \<le> 12" using e nn by linarith+
  have b: "32 * m - 50 \<le> nn" "nn \<le> 32 * m - 19" using e by linarith+
  from month_cases[OF r]
  show ?thesis
  proof (elim disjE)
    assume "m = 1" then show ?thesis using b nn
      by (simp add: days_before_month_def days_in_month_def days_before_month_tbl_def days_in_month_tbl_def)
  next
    assume "m = 2" then show ?thesis using b nn
      by (simp add: days_before_month_def days_in_month_def days_before_month_tbl_def days_in_month_tbl_def)
  next
    assume "m = 3" then show ?thesis using b nn
      by (simp add: days_before_month_def days_in_month_def days_before_month_tbl_def days_in_month_tbl_def)
  next
    assume "m = 4" then show ?thesis using b nn
      by (simp add: days_before_month_def days_in_month_def days_before_month_tbl_def days_in_month_tbl_def)
  next
    assume "m = 5" then show ?thesis using b nn
      by (simp add: days_before_month_def days_in_month_def days_before_month_tbl_def days_in_month_tbl_def)
  next
    assume "m = 6" then show ?thesis using b nn
      by (simp add: days_before_month_def days_in_month_def days_before_month_tbl_def days_in_month_tbl_def)
  next
    assume "m = 7" then show ?thesis using b nn
      by (simp add: days_before_month_def days_in_month_def days_before_month_tbl_def days_in_month_tbl_def)
  next
    assume "m = 8" then show ?thesis using b nn
      by (simp add: days_before_month_def days_in_month_def days_before_month_tbl_def days_in_month_tbl_def)
  next
    assume "m = 9" then show ?thesis using b nn
      by (simp add: days_before_month_def days_in_month_def days_before_month_tbl_def days_in_month_tbl_def)
  next
    assume "m = 10" then show ?thesis using b nn
      by (simp add: days_before_month_def days_in_month_def days_before_month_tbl_def days_in_month_tbl_def)
  next
    assume "m = 11" then show ?thesis using b nn
      by (simp add: days_before_month_def days_in_month_def days_before_month_tbl_def days_in_month_tbl_def)
  next
    assume "m = 12" then show ?thesis using b nn
      by (simp add: days_before_month_def days_in_month_def days_before_month_tbl_def days_in_month_tbl_def)
  qed
qed

lemma mod_zero_decomp:
  fixes y c K r :: int
  assumes "y = c * K + r" "0 < r" "r \<le> c"
  shows "y mod c = 0 \<longleftrightarrow> r = c"
proof (cases "r = c")
  case True
  then have "y = c * (K + 1)" using assms(1) by (simp add: algebra_simps)
  then show ?thesis using True by simp
next
  case False
  then have "r < c" using assms(3) by simp
  then have "y mod c = r"
    using int_mod_pos_eq[OF assms(1)] assms(2) by simp
  then show ?thesis using False assms(2) by simp
qed

lemma leap_flag:
  assumes "0 \<le> n100" "n100 \<le> 3" "0 \<le> n4" "n4 \<le> 24" "0 \<le> n1" "n1 \<le> 3"
      and y: "y = n400 * 400 + 1 + n100 * 100 + n4 * 4 + n1"
  shows "is_leap y \<longleftrightarrow> (n1 = 3 \<and> (n4 \<noteq> 24 \<or> n100 = 3))"
proof -
  have e4: "y = 4 * (n400 * 100 + n100 * 25 + n4) + (n1 + 1)" using y by simp
  have e100: "y = 100 * (n400 * 4 + n100) + (n4 * 4 + n1 + 1)" using y by simp
  have e400: "y = 400 * n400 + (n100 * 100 + n4 * 4 + n1 + 1)" using y by simp
  have m4: "y mod 4 = 0 \<longleftrightarrow> n1 = 3"
    using mod_zero_decomp[OF e4] assms by auto
  have a100: "n4 * 4 + n1 + 1 = 100 \<longleftrightarrow> n4 = 24 \<and> n1 = 3"
    using assms(3-6) by linarith
  have p100: "0 < n4 * 4 + n1 + 1" "n4 * 4 + n1 + 1 \<le> 100"
    using assms(3-6) by linarith+
  have m100: "y mod 100 = 0 \<longleftrightarrow> n4 = 24 \<and> n1 = 3"
    using mod_zero_decomp[OF e100 p100] a100 by simp
  have a400: "n100 * 100 + n4 * 4 + n1 + 1 = 400 \<longleftrightarrow> n100 = 3 \<and> n4 = 24 \<and> n1 = 3"
    using assms(1-6) by linarith
  have p400: "0 < n100 * 100 + n4 * 4 + n1 + 1" "n100 * 100 + n4 * 4 + n1 + 1 \<le> 400"
    using assms(1-6) by linarith+
  have m400: "y mod 400 = 0 \<longleftrightarrow> n100 = 3 \<and> n4 = 24 \<and> n1 = 3"
    using mod_zero_decomp[OF e400 p400] a400 by simp
  show ?thesis unfolding is_leap_def m4 m100 m400 by auto
qed

lemma ord_to_ymd_char:
  assumes "o1 = ordinal - 1"
      and "n400 = o1 div 146097" and "r400 = o1 mod 146097"
      and "n100 = r400 div 36524" and "r100 = r400 mod 36524"
      and "n4 = r100 div 1461" and "r4 = r100 mod 1461"
      and "n1 = r4 div 365" and "nn = r4 mod 365"
      and "y = n400 * 400 + 1 + n100 * 100 + n4 * 4 + n1"
      and "leapyear = (n1 = 3 \<and> (n4 \<noteq> 24 \<or> n100 = 3))"
      and "m = (nn + 50) div 32"
      and "preceding = days_before_month_tbl ! nat m + (if m > 2 \<and> leapyear then 1 else 0)"
  shows "ord_to_ymd ordinal =
           (if n1 = 4 \<or> n100 = 4 then (y - 1, 12, 31)
            else if preceding > nn
                 then (y, m - 1, nn - (preceding - days_in_month y (m - 1)) + 1)
                 else (y, m, nn - preceding + 1))"
  unfolding assms ord_to_ymd_def Let_def by (rule refl)

lemma ord_to_ymd_valid:
  assumes "ord_to_ymd ordinal = (y', m', d')"
  shows "1 \<le> m' \<and> m' \<le> 12 \<and> 1 \<le> d' \<and> d' \<le> days_in_month y' m'"
proof -
  define o1 where "o1 = ordinal - 1"
  define n400 where "n400 = o1 div 146097"
  define r400 where "r400 = o1 mod 146097"
  define n100 where "n100 = r400 div 36524"
  define r100 where "r100 = r400 mod 36524"
  define n4 where "n4 = r100 div 1461"
  define r4 where "r4 = r100 mod 1461"
  define n1 where "n1 = r4 div 365"
  define nn where "nn = r4 mod 365"
  define y where "y = n400 * 400 + 1 + n100 * 100 + n4 * 4 + n1"
  define leapyear where "leapyear = (n1 = 3 \<and> (n4 \<noteq> 24 \<or> n100 = 3))"
  define m where "m = (nn + 50) div 32"
  define preceding where
    "preceding = days_before_month_tbl ! nat m + (if m > 2 \<and> leapyear then 1 else 0)"
  note char = ord_to_ymd_char[OF o1_def n400_def r400_def n100_def r100_def n4_def r4_def
                n1_def nn_def y_def leapyear_def m_def preceding_def]
  have b400: "0 \<le> r400" "r400 < 146097" unfolding r400_def by simp_all
  have b100: "0 \<le> n100" "n100 < 5"
    using div_range(1,2)[of r400 36524 5] b400 unfolding n100_def by simp_all
  have c100: "0 \<le> r100" "r100 < 36524" unfolding r100_def by simp_all
  have b4: "0 \<le> n4" "n4 < 25"
    using div_range(1,2)[of r100 1461 25] c100 unfolding n4_def by simp_all
  have c4: "0 \<le> r4" "r4 < 1461" unfolding r4_def by simp_all
  have b1: "0 \<le> n1" "n1 < 5"
    using div_range(1,2)[of r4 365 5] c4 unfolding n1_def by simp_all
  have bn: "0 \<le> nn" "nn \<le> 364" unfolding nn_def by simp_all
  show ?thesis
  proof (cases "n1 = 4 \<or> n100 = 4")
    case True
    have "ord_to_ymd ordinal = (y - 1, 12, 31)"
      unfolding char using True by simp
    then have "(y', m', d') = (y - 1, 12, 31)" unfolding assms .
    then have "y' = y - 1" "m' = 12" "d' = 31" by auto
    then show ?thesis by (simp add: days_in_month_def days_in_month_tbl_def)
  next
    case False
    then have r: "n100 \<le> 3" "n4 \<le> 24" "n1 \<le> 3" using b100 b4 b1 by auto
    have leap: "is_leap y \<longleftrightarrow> leapyear"
      unfolding leapyear_def using leap_flag[OF b100(1) r(1) b4(1) r(2) b1(1) r(3) y_def] .
    have pre: "preceding = days_before_month y m"
      unfolding preceding_def days_before_month_def leap by simp
    note md = month_day_valid[OF bn m_def, of y]
    show ?thesis
    proof (cases "preceding > nn")
      case True
      have "ord_to_ymd ordinal = (y, m - 1, nn - (preceding - days_in_month y (m - 1)) + 1)"
        unfolding char using False True by simp
      then have "(y', m', d') = (y, m - 1, nn - (preceding - days_in_month y (m - 1)) + 1)"
        unfolding assms .
      then have "y' = y" "m' = m - 1"
        "d' = nn - (preceding - days_in_month y (m - 1)) + 1" by auto
      then show ?thesis using md True unfolding pre by simp
    next
      case gt: False
      have "ord_to_ymd ordinal = (y, m, nn - preceding + 1)"
        unfolding char using False gt by simp
      then have "(y', m', d') = (y, m, nn - preceding + 1)" unfolding assms .
      then have "y' = y" "m' = m" "d' = nn - preceding + 1" by auto
      then show ?thesis using md gt unfolding pre by simp
    qed
  qed
qed

lemma normalize_date_valid:
  assumes m: "1 \<le> m" "m \<le> 12"
      and n: "normalize_date y m d = Inr (y', m', d')"
  shows "MINYEAR \<le> y' \<and> y' \<le> MAXYEAR \<and> 1 \<le> m' \<and> m' \<le> 12
         \<and> 1 \<le> d' \<and> d' \<le> days_in_month y' m'"
proof -
  from n have yr: "MINYEAR \<le> y'" "y' \<le> MAXYEAR"
    and ny: "normalize_y_m_d y m d = Inr (y', m', d')"
    by (auto simp: normalize_date_def split: sum.splits prod.splits if_splits)
  have "1 \<le> m' \<and> m' \<le> 12 \<and> 1 \<le> d' \<and> d' \<le> days_in_month y' m'"
  proof (cases "0 \<le> d \<and> d \<le> days_in_month y m + 1")
    case True
    then show ?thesis
      using normalize_y_m_d_near[OF m, of d y] ny by auto
  next
    case False
    then have "Inr (ord_to_ymd (ymd_to_ord y m 1 + d - 1)) = (Inr (y', m', d') :: py_error + _)"
      using ny days_in_month_bounds[OF m, of y]
      by (auto simp: normalize_y_m_d_def Let_def split: if_splits)
    then have "ord_to_ymd (ymd_to_ord y m 1 + d - 1) = (y', m', d')" by simp
    then show ?thesis by (rule ord_to_ymd_valid)
  qed
  with yr show ?thesis by simp
qed

lemma add_datetime_timedelta_valid:
  assumes m: "1 \<le> month dt" "month dt \<le> 12"
      and r: "add_datetime_timedelta dt delta factor = Inr u"
  shows "valid_datetime u \<and> tzoffset u = tzoffset dt"
proof -
  define u0 where "u0 = microsecond dt + td_microseconds delta * factor"
  define s0 where "s0 = second dt + td_seconds delta * factor"
  define s1 where "s1 = s0 + u0 div 1000000"
  define mi1 where "mi1 = minute dt + s1 div 60"
  define h1 where "h1 = hour dt + mi1 div 60"
  define d1 where "d1 = day dt + td_days delta * factor + h1 div 24"
  note char = add_datetime_timedelta_char[OF s0_def u0_def s1_def mi1_def h1_def d1_def]
  from r[unfolded char] obtain y' m' d' where
    n: "normalize_date (year dt) (month dt) d1 = Inr (y', m', d')" and
    u: "u = dt\<lparr>year := y', month := m', day := d', hour := h1 mod 24,
               minute := mi1 mod 60, second := s1 mod 60,
               microsecond := u0 mod 1000000\<rparr>"
    by (auto split: sum.splits prod.splits)
  from normalize_date_valid[OF m n]
  show ?thesis unfolding u by (simp add: valid_datetime_def)
qed

lemma dt_plus_valid:
  assumes "1 \<le> month dt" "month dt \<le> 12" "dt_plus dt days seconds = Inr u"
  shows "valid_datetime u \<and> tzoffset u = tzoffset dt"
proof -
  from assms(3) obtain delta where "add_datetime_timedelta dt delta 1 = Inr u"
    by (auto simp: dt_plus_def split: sum.splits)
  from add_datetime_timedelta_valid[OF assms(1,2) this] show ?thesis .
qed

lemma fromtimestamp_utc_valid:
  assumes "fromtimestamp_utc ts = Inr u"
  shows "valid_datetime u \<and> tzoffset u = Some 0"
  using dt_plus_valid[of epoch 0 ts u] assms
  by (simp add: fromtimestamp_utc_def epoch_def)

section \<open>Properties of the stored start times\<close>

lemma codeforces_loop_utc:
  "codeforces_loop es = Inr cs \<Longrightarrow> c \<in> set cs \<Longrightarrow> \<exists>d. utc_rendering (start_time c) d"
proof (induction es arbitrary: cs)
  case Nil
  then show ?case by simp
next
  case (Cons e es)
  show ?case
  proof (cases "cf_phase e = ''BEFORE''")
    case False
    then show ?thesis using Cons by simp
  next
    case True
    with Cons.prems(1) obtain ts st rest where
      st: "fromtimestamp_utc ts = Inr st" and
      rest: "codeforces_loop es = Inr rest" and
      cs: "cs = \<lparr>cid = ''codeforces_'' @ str_of_int (cf_id e), platform = ''Codeforces'',
                  title = cf_name e, start_time = isoformat st,
                  duration_seconds = cf_durationSeconds e,
                  url = Some (''https://codeforces.com/contest/'' @ str_of_int (cf_id e))\<rparr>
                # rest"
      by (auto split: option.splits sum.splits)
    from Cons.prems(2) cs consider "start_time c = isoformat st" | "c \<in> set rest"
      by auto
    then show ?thesis
    proof cases
      case 1
      then show ?thesis
        using fromtimestamp_utc_valid[OF st] by (auto simp: utc_rendering_def)
    next
      case 2
      then show ?thesis using Cons.IH[OF rest] by simp
    qed
  qed
qed

lemma leetcode_loop_utc:
  "leetcode_loop now es = Inr cs \<Longrightarrow> c \<in> set cs \<Longrightarrow> \<exists>d. utc_rendering (start_time c) d"
proof (induction es arbitrary: cs)
  case Nil
  then show ?case by simp
next
  case (Cons e es)
  from Cons.prems(1) obtain st rest where
    st: "fromtimestamp_utc (lc_startTime e) = Inr st" and
    rest: "leetcode_loop now es = Inr rest" and
    cs: "cs = (if dt_less now st
               then \<lparr>cid = ''leetcode_'' @ lc_titleSlug e, platform = ''LeetCode'',
                     title = lc_title e, start_time = isoformat st,
                     duration_seconds = lc_duration e,
                     url = Some (''https://leetcode.com/contest/'' @ lc_titleSlug e)\<rparr> # rest
               else rest)"
    by (auto split: sum.splits if_splits)
  from Cons.prems(2) cs consider "start_time c = isoformat st" | "c \<in> set rest"
    by (auto split: if_splits)
  then show ?case
  proof cases
    case 1
    then show ?thesis
      using fromtimestamp_utc_valid[OF st] by (auto simp: utc_rendering_def)
  next
    case 2
    then show ?thesis using Cons.IH[OF rest] by simp
  qed
qed

lemma codechef_contest_utc:
  assumes lo: "- 1440 < lo" "lo < 1440"
      and c: "codechef_contest lo e = Inr c"
  shows "\<exists>d. utc_rendering (start_time c) d"
proof -
  from c obtain s start u where
    p: "fromisoformat s = Inr start" and
    a: "astimezone_utc lo start = Inr u" and
    st: "start_time c = isoformat u"
    by (auto simp: codechef_contest_def split: option.splits sum.splits)
  have v: "valid_datetime start"
    and k: "\<forall>k. tzoffset start = Some k \<longrightarrow> - 1440 < k \<and> k < 1440"
    using fromisoformat_valid[OF p] by blast+
  define off where "off = (case tzoffset start of None \<Rightarrow> lo | Some k \<Rightarrow> k)"
  have small: "- 1440 < off" "off < 1440"
    using lo k unfolding off_def by (auto split: option.splits)
  from astimezone_utc_shape[OF v off_def small]
  obtain y' m' d' h' mi' where
    az: "astimezone_utc lo start =
           (if MINYEAR \<le> y' \<and> y' \<le> MAXYEAR
            then Inr (start\<lparr>year := y', month := m', day := d', hour := h', minute := mi',
                           tzoffset := Some 0\<rparr>)
            else Inl OverflowError)" and
    r: "1 \<le> m'" "m' \<le> 12" "1 \<le> d'" "d' \<le> days_in_month y' m'"
       "0 \<le> h'" "h' < 24" "0 \<le> mi'" "mi' < 60"
    by blast
  from a az have yr: "MINYEAR \<le> y'" "y' \<le> MAXYEAR"
    and u: "u = start\<lparr>year := y', month := m', day := d', hour := h', minute := mi',
                      tzoffset := Some 0\<rparr>"
    by (auto split: if_splits)
  have "valid_datetime u \<and> tzoffset u = Some 0"
    unfolding u using v r yr by (simp add: valid_datetime_def)
  then show ?thesis using st by (auto simp: utc_rendering_def)
qed

lemma codechef_loop_utc:
  assumes "- 1440 < lo" "lo < 1440"
  shows "c \<in> set (codechef_loop lo es) \<Longrightarrow> \<exists>d. utc_rendering (start_time c) d"
proof (induction es)
  case Nil
  then show ?case by simp
next
  case (Cons e es)
  then show ?case
    using codechef_contest_utc[OF assms, of e]
    by (auto split: sum.splits)
qed

lemma fetch_codeforces_utc:
  assumes "c \<in> set (fetch_codeforces r)"
  shows "\<exists>d. utc_rendering (start_time c) d"
proof (cases r)
  case (Inl e)
  then show ?thesis using assms by (simp add: fetch_codeforces_def)
next
  case (Inr data)
  show ?thesis
  proof (cases "codeforces_loop (cf_result data)")
    case (Inl e)
    then show ?thesis using assms Inr by (simp add: fetch_codeforces_def split: if_splits)
  next
    case loop: (Inr cs)
    then have "c \<in> set cs"
      using assms Inr by (simp add: fetch_codeforces_def split: if_splits)
    then show ?thesis using codeforces_loop_utc[OF loop] by simp
  qed
qed

lemma fetch_leetcode_utc:
  assumes "c \<in> set (fetch_leetcode now r)"
  shows "\<exists>d. utc_rendering (start_time c) d"
proof (cases r)
  case (Inl e)
  then show ?thesis using assms by (simp add: fetch_leetcode_def)
next
  case (Inr entries)
  show ?thesis
  proof (cases "leetcode_loop now entries")
    case (Inl e)
    then show ?thesis using assms Inr by (simp add: fetch_leetcode_def)
  next
    case loop: (Inr cs)
    then have "c \<in> set cs"
      using assms Inr by (simp add: fetch_leetcode_def)
    then show ?thesis using leetcode_loop_utc[OF loop] by simp
  qed
qed

lemma fetch_codechef_utc:
  assumes "- 1440 < lo" "lo < 1440" "c \<in> set (fetch_codechef lo r)"
  shows "\<exists>d. utc_rendering (start_time c) d"
proof (cases r)
  case (Inl e)
  then show ?thesis using assms(3) by (simp add: fetch_codechef_def)
next
  case (Inr data)
  then have "c \<in> set (codechef_loop lo (cc_future_contests data))"
    using assms(3) by (simp add: fetch_codechef_def split: if_splits)
  then show ?thesis by (rule codechef_loop_utc[OF assms(1,2)])
qed

lemma adapters_utc:
  assumes "- 1440 < lo" "lo < 1440"
      and "c \<in> set (fetch_all (Inr (fetch_codeforces r1)) (Inr (fetch_leetcode now r2))
                      (Inr (fetch_codechef lo r3)))"
  shows "\<exists>d. utc_rendering (start_time c) d"
proof -
  from assms(3) consider "c \<in> set (fetch_codeforces r1)" | "c \<in> set (fetch_leetcode now r2)"
    | "c \<in> set (fetch_codechef lo r3)"
    by (auto simp: fetch_all_def)
  then show ?thesis
  proof cases
    case 1
    then show ?thesis by (rule fetch_codeforces_utc)
  next
    case 2
    then show ?thesis by (rule fetch_leetcode_utc)
  next
    case 3
    then show ?thesis by (rule fetch_codechef_utc[OF assms(1,2)])
  qed
qed

lemma save_contests_rows:
  "r \<in> set (contests (save_contests clock cs d)) \<Longrightarrow>
     r \<in> set (contests d) \<or> (\<exists>c \<in> set cs. start_time r = start_time c)"
proof (induction cs arbitrary: d clock)
  case Nil
  then show ?case by simp
next
  case (Cons c cs)
  from Cons.IH[OF Cons.prems[simplified]]
  show ?case
    by (auto simp: insert_or_replace_contest_def contest_to_row_def)
qed

lemma utc_rendering_order:
  assumes "utc_rendering s d" "valid_datetime bound" "tzoffset bound = Some 0"
  shows "(s < isoformat bound \<longleftrightarrow> instant d < instant bound)
       \<and> (isoformat bound < s \<longleftrightarrow> instant bound < instant d)"
proof -
  have d: "s = isoformat d" "valid_datetime d" "tzoffset d = Some 0"
    using assms(1) by (auto simp: utc_rendering_def)
  have same: "tzoffset d = tzoffset bound" "tzoffset bound = tzoffset d"
    using d(3) assms(3) by simp_all
  show ?thesis
    unfolding d(1)
    using isoformat_utc_order[OF d(2) assms(2) d(3) assms(3)]
          isoformat_utc_order[OF assms(2) d(2) assms(3) d(3)]
          instant_order[OF d(2) assms(2) same(1)] instant_order[OF assms(2) d(2) same(2)]
    by simp
qed

text \<open>
  C10. Take a store whose rows all hold the UTC rendering of some valid datetime, and
  save into it what \<open>fetch_all\<close> gathers from the three adapters (with a system zone
  offset of less than a day, as every zone has). Then every row of the store again holds
  the UTC rendering of a valid datetime \<open>d\<close>, and for every bound that is a valid UTC
  datetime (the ``now'' and the cutoff of \<open>get_upcoming_contests\<close> are such) the byte
  order of the stored text against the bound's text is the order of the two instants.
  The renderings differ only in the fraction, written when the microsecond is not zero;
  the order agrees all the same.
\<close>

theorem stored_start_times_order_as_instants:
  assumes "\<forall>r \<in> set (contests d0). \<exists>d. utc_rendering (start_time r) d"
      and "- 1440 < lo" "lo < 1440"
      and "r \<in> set (contests (save_contests clock
                 (fetch_all (Inr (fetch_codeforces r1)) (Inr (fetch_leetcode now r2))
                    (Inr (fetch_codechef lo r3))) d0))"
      and "valid_datetime bound" "tzoffset bound = Some 0"
  shows "\<exists>d. utc_rendering (start_time r) d
           \<and> (start_time r < isoformat bound \<longleftrightarrow> instant d < instant bound)
           \<and> (isoformat bound < start_time r \<longleftrightarrow> instant bound < instant d)"
proof -
  from save_contests_rows[OF assms(4)]
  have "\<exists>d. utc_rendering (start_time r) d"
    using assms(1) adapters_utc[OF assms(2,3)] by metis
  then obtain d where d: "utc_rendering (start_time r) d" ..
  from utc_rendering_order[OF d assms(5,6)] d show ?thesis by blast
qed

theorem stored_start_times_order_as_instants_witness:
  "utc_rendering ''2024-03-01T14:30:00+00:00'' sample_codechef_start
   \<and> isoformat sample_now < ''2024-03-01T14:30:00+00:00''
   \<and> (\<exists>d. utc_rendering ''2024-03-01T14:30:00+00:00'' d \<and> instant sample_now < instant d)"
proof -
  let ?cs = "fetch_all (Inr (fetch_codeforces (Inl (Exception ''timeout''))))
               (Inr (fetch_leetcode sample_now (Inl (Exception ''timeout''))))
               (Inr (fetch_codechef 330 (Inr sample_codechef_data)))"
  let ?row = "\<lparr>cid = ''codechef_START123'', platform = ''CodeChef'', title = ''Starters 123'',
               start_time = ''2024-03-01T14:30:00+00:00'', duration_seconds = 9000,
               url = Some ''https://www.codechef.com/START123'',
               fetched_at = ''2024-02-01T12:00:00+00:00''\<rparr>"
  have u: "utc_rendering ''2024-03-01T14:30:00+00:00'' sample_codechef_start"
    by code_simp
  have inv: "\<forall>r \<in> set (contests sample_db). \<exists>d. utc_rendering (start_time r) d"
    using u by (auto simp: sample_db_def sample_row_def)
  have lo: "- 1440 < (330::int)" "(330::int) < 1440" by simp_all
  have saved: "contests (save_contests (\<lambda>i. sample_now) ?cs sample_db) = [sample_row, ?row]"
    by code_simp
  have mem: "?row \<in> set (contests (save_contests (\<lambda>i. sample_now) ?cs sample_db))"
    unfolding saved by simp
  have b: "valid_datetime sample_now" "tzoffset sample_now = Some 0"
    by code_simp+
  have lt: "isoformat sample_now < ''2024-03-01T14:30:00+00:00''"
    by code_simp
  from stored_start_times_order_as_instants[OF inv lo mem b]
  obtain d where "utc_rendering ''2024-03-01T14:30:00+00:00'' d"
    and "isoformat sample_now < ''2024-03-01T14:30:00+00:00'' \<longleftrightarrow> instant sample_now < instant d"
    by auto
  with lt u show ?thesis by blast
qed

end
